theory Spec2Isabelle
  imports Main "HOL-Library.Word" "HOL-Library.List_Lexorder"
begin

section \<open>HabitMon: a shallow embedding of \<open>src/App.tsx\<close>\<close>

text \<open>
  The development follows the source file from top to bottom: the types, the date
  utilities, the streak and evolution functions, the storage functions and the three
  state updates of the \<open>App\<close> component (\<open>addHabit\<close>, \<open>toggleToday\<close>, \<open>deleteHabit\<close>)
  together with the click handler of \<open>HabitForm\<close> that guards \<open>addHabit\<close>.
\<close>

subsection \<open>Strings\<close>

text \<open>
  A JavaScript string is a sequence of 16-bit code units. Equality (\<open>===\<close>,
  \<open>includes\<close>, \<open>Set.has\<close>) is equality of these sequences, and the default order of
  \<open>Array.prototype.sort\<close> compares them code unit by code unit, a proper prefix being
  smaller: this is the lexicographic order on lists.
\<close>

type_synonym jsstring = "16 word list"

definition str :: "string \<Rightarrow> jsstring" where
  "str s = map of_char s"

text \<open>
  \<open>String.prototype.trim\<close> removes the code units of the ECMAScript productions
  WhiteSpace and LineTerminator from both ends.
\<close>

definition is_ws :: "16 word \<Rightarrow> bool" where
  "is_ws c \<longleftrightarrow>
     c \<in> {0x0009, 0x000A, 0x000B, 0x000C, 0x000D, 0x0020, 0x00A0, 0x1680,
          0x2000, 0x2001, 0x2002, 0x2003, 0x2004, 0x2005, 0x2006, 0x2007,
          0x2008, 0x2009, 0x200A, 0x2028, 0x2029, 0x202F, 0x205F, 0x3000, 0xFEFF}"

definition trim :: "jsstring \<Rightarrow> jsstring" where
  "trim s = rev (dropWhile is_ws (rev (dropWhile is_ws s)))"

subsection \<open>Types\<close>

datatype HabitCategory = Health | Productivity | Creativity | Personal

record Habit =
  idH :: jsstring
  name :: jsstring
  category :: HabitCategory
  createdAt :: jsstring
  completions :: "jsstring list"

subsection \<open>Creature logic\<close>

datatype EvolutionStage = Egg | Baby | Final

definition THRESHOLDS_baby :: int where
  "THRESHOLDS_baby = 4"

definition THRESHOLDS_final :: int where
  "THRESHOLDS_final = 11"

definition getStage :: "int \<Rightarrow> EvolutionStage" where
  "getStage n =
     (if n \<ge> THRESHOLDS_final then Final
      else if n \<ge> THRESHOLDS_baby then Baby
      else Egg)"

definition stageLabel :: "int \<Rightarrow> string" where
  "stageLabel n =
     (let s = getStage n
      in if s = Egg then ''Egg'' else if s = Baby then ''Hatchling'' else ''Evolved'')"

definition totalCompletions :: "jsstring list \<Rightarrow> nat" where
  "totalCompletions cs = length cs"

subsection \<open>The calendar behind \<open>Date\<close>\<close>

text \<open>
  ECMAScript dates live in the proleptic Gregorian calendar. A calendar day is a
  year, a month (1 to 12) and a day of the month.
\<close>

datatype civil = Civil (cyear: int) (cmonth: nat) (cday: nat)

definition leap :: "int \<Rightarrow> bool" where
  "leap y \<longleftrightarrow> y mod 4 = 0 \<and> (y mod 100 \<noteq> 0 \<or> y mod 400 = 0)"

definition days_in_month :: "int \<Rightarrow> nat \<Rightarrow> nat" where
  "days_in_month y m =
     (if m = 2 then (if leap y then 29 else 28)
      else if m = 4 \<or> m = 6 \<or> m = 9 \<or> m = 11 then 30
      else 31)"

definition valid_civil :: "civil \<Rightarrow> bool" where
  "valid_civil c \<longleftrightarrow>
     1 \<le> cmonth c \<and> cmonth c \<le> 12 \<and> 1 \<le> cday c
     \<and> cday c \<le> days_in_month (cyear c) (cmonth c)"

fun prev_day :: "civil \<Rightarrow> civil" where
  "prev_day (Civil y m d) =
     (if 1 < d then Civil y m (d - 1)
      else if 1 < m then Civil y (m - 1) (days_in_month y (m - 1))
      else Civil (y - 1) 12 31)"

fun next_day :: "civil \<Rightarrow> civil" where
  "next_day (Civil y m d) =
     (if d < days_in_month y m then Civil y m (d + 1)
      else if m < 12 then Civil y (m + 1) 1
      else Civil (y + 1) 1 1)"

definition add_days :: "civil \<Rightarrow> int \<Rightarrow> civil" where
  "add_days c n = (if 0 \<le> n then (next_day ^^ nat n) c else (prev_day ^^ nat (- n)) c)"

definition before :: "civil \<Rightarrow> civil \<Rightarrow> bool" where
  "before a b \<longleftrightarrow>
     cyear a < cyear b
     \<or> (cyear a = cyear b
        \<and> (cmonth a < cmonth b \<or> (cmonth a = cmonth b \<and> cday a < cday b)))"

subsection \<open>Time values and \<open>Date\<close> objects\<close>

text \<open>
  A time value is an instant: here its UTC calendar day and the milliseconds elapsed
  within that day. A \<open>Date\<close> object holds a time value or NaN (an Invalid Date),
  modelled by \<open>None\<close>. Time values reach 100,000,000 days to either side of
  1970-01-01, that is from -271821-04-20T00:00:00Z to +275760-09-13T00:00:00Z;
  \<open>TimeClip\<close> turns anything beyond into NaN.
\<close>

record instant =
  udate :: civil
  ums :: nat

type_synonym Date = "instant option"

definition msPerDay :: int where
  "msPerDay = 86400000"

definition minDate :: civil where
  "minDate = Civil (-271821) 4 20"

definition maxDate :: civil where
  "maxDate = Civil 275760 9 13"

definition TimeClip :: "instant \<Rightarrow> Date" where
  "TimeClip t =
     (if \<not> before (udate t) minDate
         \<and> (before (udate t) maxDate \<or> (udate t = maxDate \<and> ums t = 0))
      then Some t else None)"

text \<open>
  A time zone: the offset from UTC, in minutes east, in force before its first
  change, and its changes in ascending order, each the UTC instant from which a new
  offset is in force. A zone without changes has one offset at all times.
\<close>

record zone =
  base :: int
  transitions :: "(instant \<times> int) list"

text \<open>
  The environment of a run: the instant read by \<open>new Date()\<close>, the local time zone,
  and the text \<open>Math.random().toString(36)\<close> of the random draw. The clock does not
  advance within one call.
\<close>

record env =
  now :: instant
  zone :: zone
  random36 :: jsstring

text \<open>
  The first offset of the zone, and the zones that never leave it, with an offset of
  less than a day: the zones of fixed offset.
\<close>

definition tzOffset :: "env \<Rightarrow> int" where
  "tzOffset e = base (zone e)"

definition fixed_offset :: "env \<Rightarrow> bool" where
  "fixed_offset e \<longleftrightarrow>
     transitions (zone e) = [] \<and> - 1440 < tzOffset e \<and> tzOffset e < 1440"

definition wf_env :: "env \<Rightarrow> bool" where
  "wf_env e \<longleftrightarrow>
     valid_civil (udate (now e)) \<and> int (ums (now e)) < msPerDay
     \<and> TimeClip (now e) = Some (now e)"

text \<open>
  The offset in force at an instant (\<open>LocalTZA\<close> of a UTC time value), and the offset
  under which local calendar fields are read (\<open>LocalTZA\<close> of a local time value):
  fields that a change of offset skips or repeats are read with the offset in
  force before that change.
\<close>

definition earlier :: "instant \<Rightarrow> instant \<Rightarrow> bool" where
  "earlier a b \<longleftrightarrow>
     before (udate a) (udate b) \<or> (udate a = udate b \<and> ums a < ums b)"

definition minus_offset :: "civil \<times> nat \<Rightarrow> int \<Rightarrow> instant" where
  "minus_offset l off =
     (let total = int (snd l) - off * 60000
      in \<lparr>udate = add_days (fst l) (total div msPerDay), ums = nat (total mod msPerDay)\<rparr>)"

fun offset_at :: "int \<Rightarrow> (instant \<times> int) list \<Rightarrow> instant \<Rightarrow> int" where
  "offset_at cur [] t = cur"
| "offset_at cur ((T, new) # rest) t =
     (if earlier t T then cur else offset_at new rest t)"

fun offset_local :: "int \<Rightarrow> (instant \<times> int) list \<Rightarrow> civil \<times> nat \<Rightarrow> int" where
  "offset_local cur [] l = cur"
| "offset_local cur ((T, new) # rest) l =
     (if earlier (minus_offset l cur) T \<or> earlier (minus_offset l new) T then cur
      else offset_local new rest l)"

text \<open>\<open>LocalTime\<close> and \<open>UTC\<close> of the language specification, on calendar fields.\<close>

definition LocalTime :: "env \<Rightarrow> instant \<Rightarrow> civil \<times> nat" where
  "LocalTime e t =
     (let total = int (ums t) + offset_at (base (zone e)) (transitions (zone e)) t * 60000
      in (add_days (udate t) (total div msPerDay), nat (total mod msPerDay)))"

definition UTC :: "env \<Rightarrow> civil \<times> nat \<Rightarrow> instant" where
  "UTC e l = minus_offset l (offset_local (base (zone e)) (transitions (zone e)) l)"

subsection \<open>Date-time strings\<close>

definition digit_chr :: "nat \<Rightarrow> 16 word" where
  "digit_chr d = of_nat (48 + d)"

fun pad :: "nat \<Rightarrow> nat \<Rightarrow> jsstring" where
  "pad 0 n = []"
| "pad (Suc w) n = pad w (n div 10) @ [digit_chr (n mod 10)]"

definition is_digit :: "16 word \<Rightarrow> bool" where
  "is_digit c \<longleftrightarrow> 0x30 \<le> c \<and> c \<le> 0x39"

definition digits_val :: "jsstring \<Rightarrow> nat option" where
  "digits_val ds =
     (if ds \<noteq> [] \<and> list_all is_digit ds
      then Some (foldl (\<lambda>a c. 10 * a + (unat c - 48)) 0 ds) else None)"

text \<open>
  \<open>toISOString\<close> writes \<open>YYYY-MM-DDTHH:mm:ss.sssZ\<close> in UTC; a year outside 0 to 9999
  is written with a sign and six digits. It throws a RangeError on an Invalid Date.
\<close>

datatype exn = RangeError | SyntaxError | SecurityError

definition year_str :: "int \<Rightarrow> jsstring" where
  "year_str y =
     (if 0 \<le> y \<and> y \<le> 9999 then pad 4 (nat y)
      else (if y < 0 then 0x2D else 0x2B) # pad 6 (nat \<bar>y\<bar>))"

definition iso_string :: "instant \<Rightarrow> jsstring" where
  "iso_string t =
     year_str (cyear (udate t)) @ str ''-'' @ pad 2 (cmonth (udate t)) @ str ''-''
     @ pad 2 (cday (udate t)) @ str ''T''
     @ pad 2 (ums t div 3600000) @ str '':'' @ pad 2 (ums t div 60000 mod 60) @ str '':''
     @ pad 2 (ums t div 1000 mod 60) @ str ''.'' @ pad 3 (ums t mod 1000) @ str ''Z''"

definition toISOString :: "Date \<Rightarrow> exn + jsstring" where
  "toISOString d = (case d of None \<Rightarrow> Inl RangeError | Some t \<Rightarrow> Inr (iso_string t))"

definition slice_0_10 :: "jsstring \<Rightarrow> jsstring" where
  "slice_0_10 s = take 10 s"

text \<open>
  The date forms of the date-time string format: a year alone, a year and a month, or
  a year, a month and a day; the year has four digits, or a sign and six digits
  (\<open>-000000\<close> excluded); a missing month or day is 01. A day beyond the end of its
  month is taken as outside the format (engines differ there).
\<close>

definition parse_year :: "jsstring \<Rightarrow> (int \<times> jsstring) option" where
  "parse_year s =
     (case s of
        [] \<Rightarrow> None
      | c # r \<Rightarrow>
          if c = 0x2B \<or> c = 0x2D then
            (case digits_val (take 6 r) of
               None \<Rightarrow> None
             | Some v \<Rightarrow>
                 if length r < 6 \<or> (c = 0x2D \<and> v = 0) then None
                 else Some (if c = 0x2D then - int v else int v, drop 6 r))
          else
            (case digits_val (take 4 s) of
               None \<Rightarrow> None
             | Some v \<Rightarrow> if length s < 4 then None else Some (int v, drop 4 s)))"

definition parse_field :: "jsstring \<Rightarrow> (nat \<times> jsstring) option" where
  "parse_field s =
     (case s of
        c # r \<Rightarrow>
          if c = 0x2D \<and> 2 \<le> length r then
            (case digits_val (take 2 r) of None \<Rightarrow> None | Some v \<Rightarrow> Some (v, drop 2 r))
          else None
      | [] \<Rightarrow> None)"

definition parse_date :: "jsstring \<Rightarrow> civil option" where
  "parse_date s =
     (case parse_year s of
        None \<Rightarrow> None
      | Some (y, r1) \<Rightarrow>
          if r1 = [] then Some (Civil y 1 1)
          else (case parse_field r1 of
                  None \<Rightarrow> None
                | Some (m, r2) \<Rightarrow>
                    if m < 1 \<or> 12 < m then None
                    else if r2 = [] then Some (Civil y m 1)
                    else (case parse_field r2 of
                            None \<Rightarrow> None
                          | Some (d, r3) \<Rightarrow>
                              if r3 = [] \<and> valid_civil (Civil y m d)
                              then Some (Civil y m d) else None)))"

text \<open>
  \<open>new Date(s)\<close> for a string \<open>s\<close> that ends in the time part \<open>T00:00:00\<close> and carries
  no offset: the date form in front of it is read as a local calendar day, at local
  midnight. Any other string is taken as an Invalid Date; the one call of the
  program, in \<open>dateAdd\<close>, always appends this time part.
\<close>

definition new_Date :: "env \<Rightarrow> jsstring \<Rightarrow> Date" where
  "new_Date e s =
     (let k = length s - 9
      in if 9 \<le> length s \<and> drop k s = str ''T00:00:00'' then
           (case parse_date (take k s) of
              None \<Rightarrow> None
            | Some c \<Rightarrow> TimeClip (UTC e (c, 0)))
         else None)"

definition getDate :: "env \<Rightarrow> Date \<Rightarrow> int option" where
  "getDate e d = (case d of None \<Rightarrow> None | Some t \<Rightarrow> Some (int (cday (fst (LocalTime e t)))))"

text \<open>
  \<open>setDate(dt)\<close> keeps the local year, month and time of day and moves to day \<open>dt\<close>
  of that month, counted from its first day onward or backward (\<open>MakeDay\<close>).
\<close>

definition setDate :: "env \<Rightarrow> Date \<Rightarrow> int option \<Rightarrow> Date" where
  "setDate e d dt =
     (case (d, dt) of
        (Some t, Some n) \<Rightarrow>
          (let l = LocalTime e t;
               first = Civil (cyear (fst l)) (cmonth (fst l)) 1
           in TimeClip (UTC e (add_days first (n - 1), snd l)))
      | _ \<Rightarrow> None)"

subsection \<open>Utilities\<close>

definition todayISO :: "env \<Rightarrow> jsstring" where
  "todayISO e = slice_0_10 (iso_string (now e))"

definition dateAdd :: "env \<Rightarrow> jsstring \<Rightarrow> int \<Rightarrow> exn + jsstring" where
  "dateAdd e isoDate days =
     (let d = new_Date e (isoDate @ str ''T00:00:00'');
          d' = setDate e d (map_option (\<lambda>n. n + days) (getDate e d))
      in case toISOString d' of Inl x \<Rightarrow> Inl x | Inr s \<Rightarrow> Inr (slice_0_10 s))"

text \<open>
  \<open>uniq\<close> builds a \<open>Set\<close> from the array and reads it back: a \<open>Set\<close> keeps its
  elements in insertion order and ignores the insertion of an element it has.
\<close>

definition Set_add :: "'a list \<Rightarrow> 'a \<Rightarrow> 'a list" where
  "Set_add s x = (if x \<in> set s then s else s @ [x])"

definition uniq :: "'a list \<Rightarrow> 'a list" where
  "uniq arr = foldl Set_add [] arr"

subsection \<open>The streak\<close>

text \<open>
  The \<open>while\<close> loop of \<open>computeStreak\<close>, with the set, the counter and the cursor as
  arguments. A run that never leaves the loop has the value \<open>None\<close>; a run that ends
  gives the number returned or the exception thrown by \<open>dateAdd\<close>.
\<close>

partial_function (option) streak_loop ::
  "env \<Rightarrow> jsstring set \<Rightarrow> nat \<Rightarrow> jsstring \<Rightarrow> (exn + nat) option" where
  "streak_loop e S streak cursor =
     (if cursor \<in> S then
        (case dateAdd e cursor (- 1) of
           Inl x \<Rightarrow> Some (Inl x)
         | Inr cursor' \<Rightarrow> streak_loop e S (streak + 1) cursor')
      else Some (Inr streak))"

definition computeStreak :: "env \<Rightarrow> jsstring list \<Rightarrow> (exn + nat) option" where
  "computeStreak e comps =
     (if length comps = 0 then Some (Inr 0)
      else
        (let S = set comps
         in case (if todayISO e \<in> S then Inr (todayISO e) else dateAdd e (todayISO e) (- 1)) of
              Inl x \<Rightarrow> Some (Inl x)
            | Inr cursor \<Rightarrow> streak_loop e S 0 cursor))"

subsection \<open>Storage\<close>

text \<open>
  The value of a JSON text. A number is kept as its lexeme and an object as its
  members in the order of the text.
\<close>

datatype json =
  JNull | JBool bool | JNum jsstring | JStr jsstring
  | JArr "json list" | JObj "(jsstring \<times> json) list"

definition json_ws :: "16 word \<Rightarrow> bool" where
  "json_ws c \<longleftrightarrow> c = 0x20 \<or> c = 0x09 \<or> c = 0x0A \<or> c = 0x0D"

definition skip_ws :: "jsstring \<Rightarrow> jsstring" where
  "skip_ws s = dropWhile json_ws s"

definition hex_val :: "16 word \<Rightarrow> nat option" where
  "hex_val c =
     (if 0x30 \<le> c \<and> c \<le> 0x39 then Some (unat c - 48)
      else if 0x61 \<le> c \<and> c \<le> 0x66 then Some (unat c - 87)
      else if 0x41 \<le> c \<and> c \<le> 0x46 then Some (unat c - 55)
      else None)"

definition hex4 :: "jsstring \<Rightarrow> 16 word option" where
  "hex4 s =
     (case map hex_val s of
        [Some a, Some b, Some c, Some d] \<Rightarrow> Some (of_nat (((a * 16 + b) * 16 + c) * 16 + d))
      | _ \<Rightarrow> None)"

definition escape :: "16 word \<Rightarrow> 16 word option" where
  "escape c =
     (if c = 0x22 \<or> c = 0x5C \<or> c = 0x2F then Some c
      else if c = 0x62 then Some 0x08
      else if c = 0x66 then Some 0x0C
      else if c = 0x6E then Some 0x0A
      else if c = 0x72 then Some 0x0D
      else if c = 0x74 then Some 0x09
      else None)"

text \<open>The characters of a string after its opening quote, up to the closing one.\<close>

fun str_body :: "jsstring \<Rightarrow> (jsstring \<times> jsstring) option" where
  "str_body [] = None"
| "str_body (c # r) =
     (if c = 0x22 then Some ([], r)
      else if c = 0x5C then
        (case r of
           [] \<Rightarrow> None
         | x # r' \<Rightarrow>
             if x = 0x75 then
               (case hex4 (take 4 r') of
                  None \<Rightarrow> None
                | Some u \<Rightarrow> map_option (apfst ((#) u)) (str_body (drop 4 r')))
             else
               (case escape x of
                  None \<Rightarrow> None
                | Some u \<Rightarrow> map_option (apfst ((#) u)) (str_body r')))
      else if c < 0x20 then None
      else map_option (apfst ((#) c)) (str_body r))"

text \<open>
  A number: an optional minus, an integer part without a leading zero, an optional
  fraction and an optional exponent.
\<close>

definition lex_digits :: "jsstring \<Rightarrow> (jsstring \<times> jsstring) option" where
  "lex_digits s =
     (let ds = takeWhile is_digit s
      in if ds = [] then None else Some (ds, dropWhile is_digit s))"

definition lex_number :: "jsstring \<Rightarrow> (jsstring \<times> jsstring) option" where
  "lex_number s =
     (let sign = (if take 1 s = [0x2D] then [0x2D] else []);
          s1 = drop (length sign) s
      in case lex_digits s1 of
           None \<Rightarrow> None
         | Some (ip, s2) \<Rightarrow>
             if hd ip = 0x30 \<and> length ip \<noteq> 1 then None
             else
               (case (if take 1 s2 = [0x2E]
                      then map_option (apfst ((#) 0x2E)) (lex_digits (drop 1 s2))
                      else Some ([], s2)) of
                  None \<Rightarrow> None
                | Some (fp, s3) \<Rightarrow>
                    if take 1 s3 = [0x65] \<or> take 1 s3 = [0x45] then
                      (let sg = (if take 1 (drop 1 s3) = [0x2B] \<or> take 1 (drop 1 s3) = [0x2D]
                                 then take 1 (drop 1 s3) else [])
                       in case lex_digits (drop (1 + length sg) s3) of
                            None \<Rightarrow> None
                          | Some (ep, s4) \<Rightarrow> Some (sign @ ip @ fp @ take 1 s3 @ sg @ ep, s4))
                    else Some (sign @ ip @ fp, s3)))"

lemma length_skip_ws: "length (skip_ws s) \<le> length s"
  by (simp add: skip_ws_def length_dropWhile_le)

lemma skip_ws_Cons_shorter: "skip_ws s = c # r \<Longrightarrow> length r < length s"
  using length_skip_ws [of s] by simp

text \<open>
  The values, by recursive descent. \<open>parse_elems\<close> reads the elements of an array
  after its opening bracket, \<open>parse_members\<close> the members of an object after its
  opening brace. Both go on only behind a value that has consumed input, which
  every value does.
\<close>

function parse_value :: "jsstring \<Rightarrow> (json \<times> jsstring) option"
  and parse_elems :: "jsstring \<Rightarrow> (json list \<times> jsstring) option"
  and parse_members :: "jsstring \<Rightarrow> ((jsstring \<times> json) list \<times> jsstring) option" where
  "parse_value s =
     (case skip_ws s of
        [] \<Rightarrow> None
      | c # r \<Rightarrow>
          if c = 0x5B then
            (if take 1 (skip_ws r) = [0x5D] then Some (JArr [], drop 1 (skip_ws r))
             else map_option (apfst JArr) (parse_elems r))
          else if c = 0x7B then
            (if take 1 (skip_ws r) = [0x7D] then Some (JObj [], drop 1 (skip_ws r))
             else map_option (apfst JObj) (parse_members r))
          else if c = 0x22 then map_option (apfst JStr) (str_body r)
          else if take 4 (c # r) = str ''true'' then Some (JBool True, drop 4 (c # r))
          else if take 5 (c # r) = str ''false'' then Some (JBool False, drop 5 (c # r))
          else if take 4 (c # r) = str ''null'' then Some (JNull, drop 4 (c # r))
          else map_option (apfst JNum) (lex_number (c # r)))"
| "parse_elems s =
     (case parse_value s of
        None \<Rightarrow> None
      | Some (v, r) \<Rightarrow>
          if length r < length s then
            (case skip_ws r of
               [] \<Rightarrow> None
             | c # r' \<Rightarrow>
                 if c = 0x2C then map_option (apfst ((#) v)) (parse_elems r')
                 else if c = 0x5D then Some ([v], r')
                 else None)
          else None)"
| "parse_members s =
     (case skip_ws s of
        [] \<Rightarrow> None
      | q # r0 \<Rightarrow>
          if q \<noteq> 0x22 then None
          else
            (case str_body r0 of
               None \<Rightarrow> None
             | Some (k, r1) \<Rightarrow>
                 if take 1 (skip_ws r1) \<noteq> [0x3A] \<or> length s \<le> length (drop 1 (skip_ws r1)) then None
                 else
                   (case parse_value (drop 1 (skip_ws r1)) of
                      None \<Rightarrow> None
                    | Some (v, r) \<Rightarrow>
                        if length r < length s then
                          (case skip_ws r of
                             [] \<Rightarrow> None
                           | c # r' \<Rightarrow>
                               if c = 0x2C then map_option (apfst ((#) (k, v))) (parse_members r')
                               else if c = 0x7D then Some ([(k, v)], r')
                               else None)
                        else None)))"
  by pat_completeness auto

termination
  by (relation "measures [\<lambda>x. case x of Inl s \<Rightarrow> length s | Inr (Inl s) \<Rightarrow> length s | Inr (Inr s) \<Rightarrow> length s,
                          \<lambda>x. case x of Inl s \<Rightarrow> 0 | Inr _ \<Rightarrow> 1]")
     (auto dest: skip_ws_Cons_shorter)

text \<open>\<open>JSON.parse\<close> throws a SyntaxError unless the whole text is one value.\<close>

definition JSON_parse :: "jsstring \<Rightarrow> exn + json" where
  "JSON_parse s =
     (case parse_value s of
        None \<Rightarrow> Inl SyntaxError
      | Some (v, r) \<Rightarrow> if skip_ws r = [] then Inr v else Inl SyntaxError)"

text \<open>
  \<open>localStorage\<close>: a map from keys to texts, or a store the page may not touch, of
  which every access throws. \<open>getItem\<close> gives \<open>null\<close> (here \<open>None\<close>) for a missing key.
\<close>

datatype localStorage = Denied | Store "jsstring \<rightharpoonup> jsstring"

definition getItem :: "localStorage \<Rightarrow> jsstring \<Rightarrow> exn + jsstring option" where
  "getItem st k = (case st of Denied \<Rightarrow> Inl SecurityError | Store m \<Rightarrow> Inr (m k))"

definition STORAGE_KEY :: jsstring where
  "STORAGE_KEY = str ''habitmon:v01:habits''"

text \<open>
  \<open>load\<close>: the body of the \<open>try\<close>, and the \<open>catch\<close> around it. The cast \<open>as Habit[]\<close>
  is erased when the program is compiled, so what \<open>load\<close> returns is the parsed
  value itself.
\<close>

definition load_try :: "localStorage \<Rightarrow> exn + json" where
  "load_try st =
     (case getItem st STORAGE_KEY of
        Inl x \<Rightarrow> Inl x
      | Inr raw \<Rightarrow>
          (case raw of
             None \<Rightarrow> Inr (JArr [])
           | Some r \<Rightarrow> if r \<noteq> [] then JSON_parse r else Inr (JArr [])))"

definition load :: "localStorage \<Rightarrow> exn + json" where
  "load st = (case load_try st of Inl x \<Rightarrow> Inr (JArr []) | Inr v \<Rightarrow> Inr v)"

text \<open>The shape of the type \<open>Habit[]\<close>, which the program never checks.\<close>

definition is_string_json :: "json \<Rightarrow> bool" where
  "is_string_json j = (case j of JStr _ \<Rightarrow> True | _ \<Rightarrow> False)"

definition is_Habit :: "json \<Rightarrow> bool" where
  "is_Habit j =
     (case j of
        JObj ms \<Rightarrow>
          (case (map_of ms (str ''id''), map_of ms (str ''name''), map_of ms (str ''category''),
                 map_of ms (str ''createdAt''), map_of ms (str ''completions'')) of
             (Some i, Some n, Some (JStr c), Some t, Some (JArr ds)) \<Rightarrow>
               is_string_json i \<and> is_string_json n \<and> is_string_json t
               \<and> c \<in> {str ''Health'', str ''Productivity'', str ''Creativity'', str ''Personal''}
               \<and> list_all is_string_json ds
           | _ \<Rightarrow> False)
      | _ \<Rightarrow> False)"

definition is_Habit_array :: "json \<Rightarrow> bool" where
  "is_Habit_array j = (case j of JArr xs \<Rightarrow> list_all is_Habit xs | _ \<Rightarrow> False)"

subsection \<open>The state updates of \<open>App\<close> and the form's click handler\<close>

text \<open>
  \<open>addHabit\<close> receives the name and the category picked in the form. The identifier is
  \<open>Math.random().toString(36).substring(2, 9)\<close>: at most seven code units of the
  random draw's text, after its first two. (The object literal of the source carries
  a doubled comma after this field; it is read as the single comma evidently meant.)
\<close>

definition substring_2_9 :: "jsstring \<Rightarrow> jsstring" where
  "substring_2_9 s = take 7 (drop 2 s)"

definition addHabit :: "env \<Rightarrow> jsstring \<times> HabitCategory \<Rightarrow> Habit list \<Rightarrow> Habit list" where
  "addHabit e data prev =
     (let newHabit =
            \<lparr>idH = substring_2_9 (random36 e), name = fst data, category = snd data,
             createdAt = iso_string (now e), completions = []\<rparr>
      in newHabit # prev)"

text \<open>
  The click handler of \<open>HabitForm\<close> is the only caller of \<open>addHabit\<close>. Its state is
  the text of the name field and the selected category; the handler runs on these
  and on the habit collection it reaches through \<open>onAdd\<close>.
\<close>

record form =
  form_name :: jsstring
  form_category :: HabitCategory

definition HabitForm_onClick :: "env \<Rightarrow> form \<times> Habit list \<Rightarrow> form \<times> Habit list" where
  "HabitForm_onClick e st =
     (let f = fst st
      in if trim (form_name f) = [] then st
         else (f\<lparr>form_name := []\<rparr>,
               addHabit e (trim (form_name f), form_category f) (snd st)))"

definition toggleToday :: "env \<Rightarrow> jsstring \<Rightarrow> Habit list \<Rightarrow> Habit list" where
  "toggleToday e i prev =
     (let iso = todayISO e
      in map (\<lambda>h.
            if idH h \<noteq> i then h
            else
              (let done = iso \<in> set (completions h)
               in h\<lparr>completions :=
                      (if done then filter (\<lambda>d. d \<noteq> iso) (completions h)
                       else sort (uniq (completions h @ [iso])))\<rparr>))
           prev)"

definition deleteHabit :: "jsstring \<Rightarrow> Habit list \<Rightarrow> Habit list" where
  "deleteHabit i prev = filter (\<lambda>h. idH h \<noteq> i) prev"

text \<open>What can be seen of a habit when its completions are read as a set of dates.\<close>

definition view :: "Habit \<Rightarrow> jsstring \<times> jsstring \<times> HabitCategory \<times> jsstring \<times> jsstring set" where
  "view h = (idH h, name h, category h, createdAt h, set (completions h))"

subsection \<open>The streak as the specification words it\<close>

text \<open>
  The specification walks over calendar days: from today if today is completed,
  from the day before otherwise, one day back at a time while the day is completed.
  A day is looked up under its date \<open>YYYY-MM-DD\<close>.
\<close>

definition date_str :: "civil \<Rightarrow> jsstring" where
  "date_str c = year_str (cyear c) @ str ''-'' @ pad 2 (cmonth c) @ str ''-'' @ pad 2 (cday c)"

partial_function (option) spec_walk :: "jsstring set \<Rightarrow> nat \<Rightarrow> civil \<Rightarrow> nat option" where
  "spec_walk S count cursor =
     (if date_str cursor \<in> S then spec_walk S (count + 1) (prev_day cursor) else Some count)"

definition spec_streak :: "civil \<Rightarrow> jsstring list \<Rightarrow> nat option" where
  "spec_streak today cs =
     (if cs = [] then Some 0
      else spec_walk (set cs) 0 (if date_str today \<in> set cs then today else prev_day today))"

subsection \<open>Notions for the proofs\<close>

text \<open>
  What the first ten code units of \<open>toISOString\<close> keep of a day: the whole day for a
  year written with four digits, the year and the month otherwise. \<open>ckey\<close> orders the
  days, \<open>rank\<close> the strings that are dates; \<open>zshift\<close> is the step from a local
  midnight to the UTC day it falls in.
\<close>

definition seen_day :: "civil \<Rightarrow> civil" where
  "seen_day c = (if 0 \<le> cyear c \<and> cyear c \<le> 9999 then c else Civil (cyear c) (cmonth c) 1)"

definition ckey :: "civil \<Rightarrow> int" where
  "ckey c = (cyear c * 12 + int (cmonth c)) * 31 + int (cday c)"

definition zshift :: "env \<Rightarrow> civil \<Rightarrow> civil" where
  "zshift e c = (if 0 < tzOffset e then prev_day c else c)"

definition rank :: "jsstring \<Rightarrow> int" where
  "rank s = (case parse_date s of None \<Rightarrow> 0 | Some c \<Rightarrow> ckey c)"

text \<open>The cursor of the loop after a number of turns, or the exception met on the way.\<close>

fun cursor_after :: "env \<Rightarrow> jsstring \<Rightarrow> nat \<Rightarrow> exn + jsstring" where
  "cursor_after e c 0 = Inr c"
| "cursor_after e c (Suc i) =
     (case dateAdd e c (- 1) of Inl x \<Rightarrow> Inl x | Inr c' \<Rightarrow> cursor_after e c' i)"

subsection \<open>Data for the examples\<close>

text \<open>
  Two environments with the clock at 11:00 UTC on 10 March 2024: one in a zone
  fixed an hour east of UTC, where \<open>Math.random()\<close> has drawn 0.5 (\<open>0.i\<close> in base
  36), and one in a zone fixed five hours west of UTC. A third in Pacific/Apia at
  12:00 UTC on 30 December 2011: this zone went from ten hours west to fourteen
  hours east of UTC at 10:00 UTC of that day, the end of its 29 December, so that
  it had no 30 December.
\<close>

definition env_plus1 :: env where
  "env_plus1 =
     \<lparr>now = \<lparr>udate = Civil 2024 3 10, ums = 39600000\<rparr>,
      zone = \<lparr>base = 60, transitions = []\<rparr>,
      random36 = str ''0.i''\<rparr>"

definition env_minus5 :: env where
  "env_minus5 =
     \<lparr>now = \<lparr>udate = Civil 2024 3 10, ums = 39600000\<rparr>,
      zone = \<lparr>base = - 300, transitions = []\<rparr>,
      random36 = str ''0.4fzyo82mvyr''\<rparr>"

definition env_apia :: env where
  "env_apia =
     \<lparr>now = \<lparr>udate = Civil 2011 12 30, ums = 43200000\<rparr>,
      zone = \<lparr>base = - 600,
               transitions = [(\<lparr>udate = Civil 2011 12 30, ums = 36000000\<rparr>, 840)]\<rparr>,
      random36 = str ''0.7k2m9xq4c1''\<rparr>"

definition habit_read :: Habit where
  "habit_read =
     \<lparr>idH = str ''i'', name = str ''Read'', category = Personal,
      createdAt = str ''2024-03-01T08:00:00.000Z'',
      completions = [str ''2024-03-09'', str ''2024-03-03'']\<rparr>"

definition habit_walk :: Habit where
  "habit_walk =
     \<lparr>idH = str ''w'', name = str ''Walk'', category = Health,
      createdAt = str ''2024-03-02T08:00:00.000Z'',
      completions = [str ''2024-03-08'', str ''2024-03-10'', str ''2024-03-09'']\<rparr>"

definition form_read :: form where
  "form_read = \<lparr>form_name = str ''  Read  '', form_category = Personal\<rparr>"

definition form_blank :: form where
  "form_blank = \<lparr>form_name = [0x20, 0x09, 0x3000], form_category = Health\<rparr>"

definition storage_empty :: localStorage where
  "storage_empty = Store Map.empty"

definition storage_broken :: localStorage where
  "storage_broken = Store [STORAGE_KEY \<mapsto> str ''[1,]'']"

definition storage_object :: localStorage where
  \<open>storage_object = Store [STORAGE_KEY \<mapsto> str ''{"a":1}'']\<close>

section \<open>Evolution stage\<close>

text \<open>
  C2. The stage shown for a total is Egg exactly below 4, Hatchling exactly from 4 to
  10 and Evolved exactly from 11 on, for \<open>getStage\<close> and for the label derived from
  it; the four boundary totals 3, 4, 10 and 11 fall as the thresholds say. The
  statement holds for every integer, in particular for every total \<open>\<ge> 0\<close>.
\<close>

theorem evolution_stage_thresholds:
  "(getStage n = Egg) = (n < 4)
   \<and> (getStage n = Baby) = (4 \<le> n \<and> n < 11)
   \<and> (getStage n = Final) = (11 \<le> n)
   \<and> (stageLabel n = ''Egg'') = (n < 4)
   \<and> (stageLabel n = ''Hatchling'') = (4 \<le> n \<and> n < 11)
   \<and> (stageLabel n = ''Evolved'') = (11 \<le> n)
   \<and> stageLabel 3 = ''Egg'' \<and> stageLabel 4 = ''Hatchling''
   \<and> stageLabel 10 = ''Hatchling'' \<and> stageLabel 11 = ''Evolved''"
  by (simp add: getStage_def stageLabel_def THRESHOLDS_baby_def THRESHOLDS_final_def)

section \<open>Numbers of two, three and four digits\<close>

lemma pad2: "pad 2 n = [digit_chr (n div 10 mod 10), digit_chr (n mod 10)]"
  by (simp add: numeral_2_eq_2)

lemma pad3:
  "pad 3 n = [digit_chr (n div 10 div 10 mod 10), digit_chr (n div 10 mod 10), digit_chr (n mod 10)]"
  by (simp add: numeral_3_eq_3)

lemma pad4:
  "pad 4 n = [digit_chr (n div 10 div 10 div 10 mod 10), digit_chr (n div 10 div 10 mod 10),
              digit_chr (n div 10 mod 10), digit_chr (n mod 10)]"
  using pad.simps(2) [of 3 n] by (simp add: pad3)

lemma today_plus1: "todayISO env_plus1 = str ''2024-03-10''"
  by (simp add: env_plus1_def todayISO_def slice_0_10_def iso_string_def year_str_def
      str_def digit_chr_def pad2 pad3 pad4)

lemma now_plus1: "iso_string (now env_plus1) = str ''2024-03-10T11:00:00.000Z''"
  by (simp add: env_plus1_def iso_string_def year_str_def str_def digit_chr_def pad2 pad3 pad4)

section \<open>Toggling today's completion, deleting\<close>

lemma set_uniq: "set (foldl Set_add acc xs) = set acc \<union> set xs"
  by (induction xs arbitrary: acc) (auto simp: Set_add_def)

lemma distinct_uniq: "distinct acc \<Longrightarrow> distinct (foldl Set_add acc xs)"
  by (induction xs arbitrary: acc) (auto simp: Set_add_def)

lemma uniq_props: "set (uniq xs) = set xs \<and> distinct (uniq xs)"
  by (simp add: uniq_def set_uniq distinct_uniq)

lemma toggled_once:
  "toggleToday e i S =
     map (\<lambda>h. if idH h \<noteq> i then h
              else if todayISO e \<in> set (completions h)
                then h\<lparr>completions := filter (\<lambda>d. d \<noteq> todayISO e) (completions h)\<rparr>
                else h\<lparr>completions := sort (uniq (completions h @ [todayISO e]))\<rparr>) S"
  by (simp add: toggleToday_def Let_def cong: if_cong)

text \<open>
  C3. Toggling today's completion of a habit twice gives back every habit with the
  completion set it had, and with its identifier, name, category and creation time;
  so the completion set of the toggled habit is restored, whatever the collection.
\<close>

theorem toggle_twice_restores_set:
  "map view (toggleToday e i (toggleToday e i S)) = map view S"
  by (simp add: toggled_once view_def uniq_props) (auto simp: uniq_props)

text \<open>
  When the completions of the toggled habits are in ascending order and free of
  duplicates, as \<open>toggleToday\<close> leaves them, two toggles give back the very arrays.
\<close>

lemma toggle_twice_same_list:
  assumes "sorted cs" "distinct cs"
  shows "(if t \<in> set cs then sort (uniq (filter (\<lambda>d. d \<noteq> t) cs @ [t]))
          else filter (\<lambda>d. d \<noteq> t) (sort (uniq (cs @ [t])))) = cs"
proof (cases "t \<in> set cs")
  case True
  have "set (sort (uniq (filter (\<lambda>d. d \<noteq> t) cs @ [t]))) = set cs"
    using True by (auto simp: uniq_props)
  moreover have "distinct (sort (uniq (filter (\<lambda>d. d \<noteq> t) cs @ [t])))"
    by (simp add: uniq_props)
  moreover have "sorted (sort (uniq (filter (\<lambda>d. d \<noteq> t) cs @ [t])))"
    by simp
  ultimately have "sort (uniq (filter (\<lambda>d. d \<noteq> t) cs @ [t])) = cs"
    using assms by (intro sorted_distinct_set_unique)
  then show ?thesis using True by simp
next
  case False
  have "set (filter (\<lambda>d. d \<noteq> t) (sort (uniq (cs @ [t])))) = set cs"
    using False by (auto simp: uniq_props)
  moreover have "distinct (filter (\<lambda>d. d \<noteq> t) (sort (uniq (cs @ [t]))))"
    by (simp add: uniq_props)
  moreover have "sorted (filter (\<lambda>d. d \<noteq> t) (sort (uniq (cs @ [t]))))"
    by (simp add: sorted_wrt_filter)
  ultimately have "filter (\<lambda>d. d \<noteq> t) (sort (uniq (cs @ [t]))) = cs"
    using assms by (intro sorted_distinct_set_unique)
  then show ?thesis using False by simp
qed

lemma toggle_twice_restores_list:
  assumes "\<forall>h \<in> set S. idH h = i \<longrightarrow> sorted (completions h) \<and> distinct (completions h)"
  shows "toggleToday e i (toggleToday e i S) = S"
proof -
  let ?t = "todayISO e"
  let ?g = "\<lambda>h. if idH h \<noteq> i then h
              else if ?t \<in> set (completions h)
                then h\<lparr>completions := filter (\<lambda>d. d \<noteq> ?t) (completions h)\<rparr>
                else h\<lparr>completions := sort (uniq (completions h @ [?t]))\<rparr>"
  have gg: "?g (?g h) = h" if h: "h \<in> set S" for h
  proof (cases "idH h = i")
    case False
    then show ?thesis by simp
  next
    case True
    with assms h have sd: "sorted (completions h)" "distinct (completions h)" by auto
    show ?thesis
    proof (cases "?t \<in> set (completions h)")
      case in_set: True
      with toggle_twice_same_list [OF sd, of ?t]
      have "sort (uniq (filter (\<lambda>d. d \<noteq> ?t) (completions h) @ [?t])) = completions h"
        by simp
      then show ?thesis using True in_set by simp
    next
      case out: False
      with toggle_twice_same_list [OF sd, of ?t]
      have "filter (\<lambda>d. d \<noteq> ?t) (sort (uniq (completions h @ [?t]))) = completions h"
        by simp
      then show ?thesis using True out by (simp add: uniq_props)
    qed
  qed
  have t1: "\<And>X. toggleToday e i X = map ?g X" by (rule toggled_once)
  have "toggleToday e i (toggleToday e i S) = map ?g (map ?g S)" by (simp only: t1)
  also have "\<dots> = map (\<lambda>h. ?g (?g h)) S" by (simp only: map_map comp_def)
  also have "\<dots> = S" using gg by (intro map_idI)
  finally show ?thesis .
qed

text \<open>
  C8. With an identifier that no habit of the collection carries, \<open>toggleToday\<close>
  and \<open>deleteHabit\<close> both return the collection as it was.
\<close>

theorem unknown_id_noop:
  "i \<notin> idH ` set S \<Longrightarrow> toggleToday e i S = S \<and> deleteHabit i S = S"
proof (induction S)
  case Nil
  show ?case by (simp add: toggled_once deleteHabit_def)
next
  case (Cons h S)
  then show ?case by (auto simp: toggled_once deleteHabit_def)
qed

theorem unknown_id_noop_witness:
  "str ''zz'' \<notin> idH ` set [habit_read, habit_walk]
   \<and> toggleToday env_plus1 (str ''zz'') [habit_read, habit_walk] = [habit_read, habit_walk]
   \<and> deleteHabit (str ''zz'') [habit_read, habit_walk] = [habit_read, habit_walk]"
proof -
  have h: "str ''zz'' \<notin> idH ` set [habit_read, habit_walk]"
    by (simp add: habit_read_def habit_walk_def str_def)
  show ?thesis using h unknown_id_noop [OF h, of env_plus1] by simp
qed

text \<open>
  C9. For a habit of the collection that carries the toggled identifier: if today's
  date was not among its completions, the new completions are free of duplicates,
  in ascending order, and hold exactly the old dates and today's; if it was, the
  new completions are the old ones without today's date, in their old order. In
  both cases identifier, name, category and creation time stay as they were.
\<close>

theorem toggle_paths:
  "k < length S \<Longrightarrow> idH (S ! k) = i \<Longrightarrow>
   (todayISO e \<notin> set (completions (S ! k)) \<longrightarrow>
      distinct (completions (toggleToday e i S ! k))
      \<and> sorted (completions (toggleToday e i S ! k))
      \<and> set (completions (toggleToday e i S ! k)) = insert (todayISO e) (set (completions (S ! k))))
   \<and> (todayISO e \<in> set (completions (S ! k)) \<longrightarrow>
      completions (toggleToday e i S ! k) = filter (\<lambda>d. d \<noteq> todayISO e) (completions (S ! k)))
   \<and> idH (toggleToday e i S ! k) = idH (S ! k)
   \<and> name (toggleToday e i S ! k) = name (S ! k)
   \<and> category (toggleToday e i S ! k) = category (S ! k)
   \<and> createdAt (toggleToday e i S ! k) = createdAt (S ! k)"
  by (simp add: toggled_once uniq_props)

theorem toggle_paths_witness:
  "0 < length [habit_read, habit_walk] \<and> idH ([habit_read, habit_walk] ! 0) = str ''i''
   \<and> todayISO env_plus1 \<notin> set (completions ([habit_read, habit_walk] ! 0))
   \<and> completions (toggleToday env_plus1 (str ''i'') [habit_read, habit_walk] ! 0)
       = [str ''2024-03-03'', str ''2024-03-09'', str ''2024-03-10'']
   \<and> sorted (completions (toggleToday env_plus1 (str ''i'') [habit_read, habit_walk] ! 0))
   \<and> 1 < length [habit_read, habit_walk] \<and> idH ([habit_read, habit_walk] ! 1) = str ''w''
   \<and> todayISO env_plus1 \<in> set (completions ([habit_read, habit_walk] ! 1))
   \<and> completions (toggleToday env_plus1 (str ''w'') [habit_read, habit_walk] ! 1)
       = [str ''2024-03-08'', str ''2024-03-09'']"
proof -
  have a: "0 < length [habit_read, habit_walk]" "idH ([habit_read, habit_walk] ! 0) = str ''i''"
    by (simp_all add: habit_read_def)
  have b: "1 < length [habit_read, habit_walk]" "idH ([habit_read, habit_walk] ! 1) = str ''w''"
    by (simp_all add: habit_walk_def)
  have c: "todayISO env_plus1 \<notin> set (completions ([habit_read, habit_walk] ! 0))"
    by (simp add: today_plus1 habit_read_def str_def)
  have d: "todayISO env_plus1 \<in> set (completions ([habit_read, habit_walk] ! 1))"
    by (simp add: today_plus1 habit_walk_def)
  have e: "completions (toggleToday env_plus1 (str ''i'') [habit_read, habit_walk] ! 0)
       = [str ''2024-03-03'', str ''2024-03-09'', str ''2024-03-10'']"
    by (simp add: toggled_once today_plus1 habit_read_def habit_walk_def uniq_def Set_add_def str_def)
  have f: "filter (\<lambda>d. d \<noteq> todayISO env_plus1) (completions ([habit_read, habit_walk] ! 1))
       = [str ''2024-03-08'', str ''2024-03-09'']"
    by (simp add: today_plus1 habit_walk_def str_def)
  show ?thesis
    using a b c d e f
      toggle_paths [OF a(1) a(2), of env_plus1] toggle_paths [OF b(1) b(2), of env_plus1]
    by simp
qed

section \<open>Adding a habit\<close>

text \<open>
  C4. When the name typed into the form is empty after trimming, the click on
  Add Habit changes nothing: the habit collection and the form are as before, so no
  record has been made.
\<close>

theorem blank_name_noop:
  "trim (form_name f) = [] \<Longrightarrow> HabitForm_onClick e (f, S) = (f, S)"
  by (simp add: HabitForm_onClick_def)

theorem blank_name_noop_witness:
  "trim (form_name form_blank) = []
   \<and> HabitForm_onClick env_plus1 (form_blank, [habit_read]) = (form_blank, [habit_read])"
proof -
  have h: "trim (form_name form_blank) = []"
    by (simp add: form_blank_def trim_def is_ws_def)
  show ?thesis using h blank_name_noop [OF h] by simp
qed

text \<open>
  C7, as the program has it. With a name that is not empty after trimming, the click
  puts one new record in front of the collection and leaves the old records behind
  it, unchanged and in their order. The record has the trimmed name, the selected
  category, no completions, the current instant as creation time, and as
  identifier the drawn text \<open>substring_2_9 (random36 e)\<close>, which is new to the
  collection whenever no habit carries it yet. The name \<open>"  Read  "\<close> is stored as
  \<open>"Read"\<close>.
\<close>

theorem add_habit_front:
  "trim (form_name f) \<noteq> [] \<Longrightarrow>
   snd (HabitForm_onClick e (f, S))
     = \<lparr>idH = substring_2_9 (random36 e), name = trim (form_name f),
        category = form_category f, createdAt = iso_string (now e), completions = []\<rparr> # S
   \<and> (substring_2_9 (random36 e) \<notin> idH ` set S
        \<longrightarrow> idH (hd (snd (HabitForm_onClick e (f, S)))) \<notin> idH ` set S)
   \<and> trim (str ''  Read  '') = str ''Read''"
  by (simp add: HabitForm_onClick_def addHabit_def Let_def trim_def str_def is_ws_def)

theorem add_habit_front_witness:
  "trim (form_name form_read) \<noteq> []
   \<and> substring_2_9 (random36 env_minus5) \<notin> idH ` set [habit_read]
   \<and> snd (HabitForm_onClick env_minus5 (form_read, [habit_read]))
       = \<lparr>idH = str ''4fzyo82'', name = str ''Read'', category = Personal,
          createdAt = str ''2024-03-10T11:00:00.000Z'', completions = []\<rparr> # [habit_read]
   \<and> idH (hd (snd (HabitForm_onClick env_minus5 (form_read, [habit_read])))) \<notin> idH ` set [habit_read]"
proof -
  have h: "trim (form_name form_read) \<noteq> []"
    by (simp add: form_read_def trim_def is_ws_def str_def)
  have t: "trim (form_name form_read) = str ''Read''"
    by (simp add: form_read_def trim_def is_ws_def str_def)
  have r: "substring_2_9 (random36 env_minus5) = str ''4fzyo82''"
    by (simp add: substring_2_9_def env_minus5_def str_def)
  have n: "iso_string (now env_minus5) = str ''2024-03-10T11:00:00.000Z''"
    by (simp add: env_minus5_def iso_string_def year_str_def str_def digit_chr_def pad2 pad3 pad4)
  have d: "substring_2_9 (random36 env_minus5) \<notin> idH ` set [habit_read]"
    by (simp add: r habit_read_def str_def)
  have c: "form_category form_read = Personal"
    by (simp add: form_read_def)
  show ?thesis
    using h d add_habit_front [OF h, of env_minus5 "[habit_read]"] by (simp add: t r n c)
qed

text \<open>
  The identifier is not checked against the collection: where the draw repeats an
  identifier in use (here 0.5, which gives \<open>"i"\<close>), the new habit shares it.
\<close>

theorem add_habit_id_counterexample:
  "trim (form_name form_read) \<noteq> []
   \<and> idH (hd (snd (HabitForm_onClick env_plus1 (form_read, [habit_read])))) \<in> idH ` set [habit_read]"
  by (simp add: HabitForm_onClick_def addHabit_def Let_def form_read_def trim_def is_ws_def
      str_def substring_2_9_def env_plus1_def habit_read_def)

section \<open>Loading the collection\<close>

text \<open>
  C5, as the program has it. \<open>load\<close> never throws. It returns the empty array when
  the store may not be read, when the key is missing, and when the stored text is
  empty or is no JSON text. A stored text that is a JSON text is returned as the
  value it denotes, whatever the shape of that value.
\<close>

theorem load_fails_soft:
  "(\<exists>v. load st = Inr v)
   \<and> (getItem st STORAGE_KEY \<in> {Inl SecurityError, Inr None, Inr (Some [])}
        \<longrightarrow> load st = Inr (JArr []))
   \<and> (\<forall>raw x. getItem st STORAGE_KEY = Inr (Some raw) \<and> JSON_parse raw = Inl x
        \<longrightarrow> load st = Inr (JArr []))
   \<and> (\<forall>raw v. getItem st STORAGE_KEY = Inr (Some raw) \<and> JSON_parse raw = Inr v
        \<longrightarrow> load st = Inr v)"
  by (auto simp: load_def load_try_def JSON_parse_def skip_ws_def
      split: sum.splits option.splits)

theorem load_fails_soft_witness:
  \<open>getItem storage_empty STORAGE_KEY \<in> {Inl SecurityError, Inr None, Inr (Some [])}
   \<and> load storage_empty = Inr (JArr [])
   \<and> getItem storage_broken STORAGE_KEY = Inr (Some (str ''[1,]''))
   \<and> JSON_parse (str ''[1,]'') = Inl SyntaxError
   \<and> load storage_broken = Inr (JArr [])
   \<and> getItem storage_object STORAGE_KEY = Inr (Some (str ''{"a":1}''))
   \<and> JSON_parse (str ''{"a":1}'') = Inr (JObj [(str ''a'', JNum (str ''1''))])
   \<and> load storage_object = Inr (JObj [(str ''a'', JNum (str ''1''))])\<close>
proof -
  have a: "getItem storage_empty STORAGE_KEY \<in> {Inl SecurityError, Inr None, Inr (Some [])}"
    by (simp add: getItem_def storage_empty_def)
  have b: \<open>getItem storage_broken STORAGE_KEY = Inr (Some (str ''[1,]''))\<close>
    by (simp add: getItem_def storage_broken_def)
  have c: \<open>JSON_parse (str ''[1,]'') = Inl SyntaxError\<close>
    by (simp add: JSON_parse_def str_def skip_ws_def json_ws_def lex_number_def lex_digits_def
        is_digit_def)
  have d: \<open>getItem storage_object STORAGE_KEY = Inr (Some (str ''{"a":1}''))\<close>
    by (simp add: getItem_def storage_object_def)
  have e: \<open>JSON_parse (str ''{"a":1}'') = Inr (JObj [(str ''a'', JNum (str ''1''))])\<close>
    by (simp add: JSON_parse_def str_def skip_ws_def json_ws_def lex_number_def lex_digits_def
        is_digit_def)
  show ?thesis
    using a b c d e load_fails_soft [of storage_empty] load_fails_soft [of storage_broken]
      load_fails_soft [of storage_object]
    by blast
qed

text \<open>
  A stored JSON text of another shape than \<open>Habit[]\<close> comes back as it is, not as the
  empty array.
\<close>

theorem load_wrong_shape_counterexample:
  \<open>\<not> is_Habit_array (JObj [(str ''a'', JNum (str ''1''))])
   \<and> load storage_object = Inr (JObj [(str ''a'', JNum (str ''1''))])
   \<and> load storage_object \<noteq> Inr (JArr [])\<close>
  by (simp add: is_Habit_array_def load_def load_try_def getItem_def storage_object_def
      JSON_parse_def str_def skip_ws_def json_ws_def lex_number_def lex_digits_def is_digit_def)


section \<open>Dates as strings\<close>

text \<open>
  Writing a number with a fixed count of digits and reading it back; then the same
  for the first ten code units of a date, which \<open>parse_date\<close> reads as \<open>seen_day\<close>.
\<close>

lemma unat_digit_chr: "d < 10 \<Longrightarrow> unat (digit_chr d) = 48 + d"
  by (simp add: digit_chr_def unat_of_nat del: of_nat_add)

lemma is_digit_digit_chr: "d < 10 \<Longrightarrow> is_digit (digit_chr d)"
  by (simp add: is_digit_def word_le_nat_alt unat_digit_chr)

lemma digit_chr_not_sign: "d < 10 \<Longrightarrow> digit_chr d \<noteq> 0x2B \<and> digit_chr d \<noteq> 0x2D"
proof -
  assume "d < 10"
  then have "unat (digit_chr d) = 48 + d" by (rule unat_digit_chr)
  then show ?thesis by auto
qed

lemma length_pad: "length (pad w n) = w"
  by (induction w arbitrary: n) auto

lemma all_digits_pad: "list_all is_digit (pad w n)"
  by (induction w arbitrary: n) (auto simp: is_digit_digit_chr)

lemma val_pad: "foldl (\<lambda>a c. 10 * a + (unat c - 48)) 0 (pad w n) = n mod 10 ^ w"
proof (induction w arbitrary: n)
  case 0
  show ?case by simp
next
  case (Suc w)
  have "n mod (10 * 10 ^ w) = 10 * (n div 10 mod 10 ^ w) + n mod 10"
    by (simp add: mod_mult2_eq)
  then show ?case by (simp add: Suc unat_digit_chr)
qed

lemma digits_val_pad: "0 < w \<Longrightarrow> n < 10 ^ w \<Longrightarrow> digits_val (pad w n) = Some n"
  using length_pad [of w n] by (auto simp: digits_val_def all_digits_pad val_pad)

lemma pad6_unfold: "pad 6 n = pad 4 (n div 10 div 10) @ pad 2 n"
proof -
  have "pad 6 n = pad 5 (n div 10) @ [digit_chr (n mod 10)]"
    using pad.simps(2) [of 5 n] by simp
  moreover have "pad 5 (n div 10) = pad 4 (n div 10 div 10) @ [digit_chr (n div 10 mod 10)]"
    using pad.simps(2) [of 4 "n div 10"] by simp
  ultimately show ?thesis by (simp add: pad2)
qed

lemma parse_year_unsigned:
  "s \<noteq> [] \<Longrightarrow> hd s \<noteq> 0x2B \<Longrightarrow> hd s \<noteq> 0x2D \<Longrightarrow>
   parse_year s = (case digits_val (take 4 s) of None \<Rightarrow> None
                   | Some v \<Rightarrow> if length s < 4 then None else Some (int v, drop 4 s))"
  by (cases s) (auto simp: parse_year_def)

lemma parse_year_pad4: "n < 10000 \<Longrightarrow> parse_year (pad 4 n @ r) = Some (int n, r)"
proof -
  assume n: "n < 10000"
  have h: "hd (pad 4 n @ r) = digit_chr (n div 10 div 10 div 10 mod 10)" "pad 4 n @ r \<noteq> []"
    by (simp_all add: pad4)
  have "hd (pad 4 n @ r) \<noteq> 0x2B" "hd (pad 4 n @ r) \<noteq> 0x2D"
    using digit_chr_not_sign [of "n div 10 div 10 div 10 mod 10"] by (simp_all add: h(1))
  then have "parse_year (pad 4 n @ r)
      = (case digits_val (take 4 (pad 4 n @ r)) of None \<Rightarrow> None
         | Some v \<Rightarrow> if length (pad 4 n @ r) < 4 then None else Some (int v, drop 4 (pad 4 n @ r)))"
    using h(2) by (intro parse_year_unsigned)
  also have "\<dots> = Some (int n, r)"
    using n by (simp add: length_pad digits_val_pad)
  finally show ?thesis .
qed

lemma parse_year_minus:
  "0 < n \<Longrightarrow> n < 1000000 \<Longrightarrow> parse_year (0x2D # pad 6 n @ r) = Some (- int n, r)"
  by (simp add: parse_year_def length_pad digits_val_pad)

lemma parse_year_plus:
  "n < 1000000 \<Longrightarrow> parse_year (0x2B # pad 6 n @ r) = Some (int n, r)"
  by (simp add: parse_year_def length_pad digits_val_pad)

lemma parse_year_str:
  "- 1000000 < y \<Longrightarrow> y < 1000000 \<Longrightarrow> parse_year (year_str y @ r) = Some (y, r)"
proof -
  assume b: "- 1000000 < y" "y < 1000000"
  consider "0 \<le> y \<and> y \<le> 9999" | "y < 0" | "9999 < y" by linarith
  then show ?thesis
  proof cases
    case 1
    then have "nat y < 10000" by linarith
    from parse_year_pad4 [OF this, of r] 1 show ?thesis by (simp add: year_str_def)
  next
    case 2
    then have "0 < nat \<bar>y\<bar>" "nat \<bar>y\<bar> < 1000000" using b by linarith+
    from parse_year_minus [OF this, of r] 2 show ?thesis by (simp add: year_str_def)
  next
    case 3
    then have "nat \<bar>y\<bar> < 1000000" using b by linarith
    from parse_year_plus [OF this, of r] 3 show ?thesis by (simp add: year_str_def)
  qed
qed

lemma parse_field_pad2: "n < 100 \<Longrightarrow> parse_field (0x2D # pad 2 n @ r) = Some (n, r)"
  by (simp add: parse_field_def length_pad digits_val_pad)

lemma parse_field_pad2_end: "n < 100 \<Longrightarrow> parse_field (0x2D # pad 2 n) = Some (n, [])"
  using parse_field_pad2 [of n "[]"] by simp

lemma length_year_str:
  "length (year_str y) = (if 0 \<le> y \<and> y \<le> 9999 then 4 else 7)"
  by (simp add: year_str_def length_pad)

lemma dash: "str ''-'' = [0x2D]"
  by (simp add: str_def)

lemma take10_date_str:
  "take 10 (date_str c) =
     (if 0 \<le> cyear c \<and> cyear c \<le> 9999 then date_str c
      else year_str (cyear c) @ 0x2D # pad 2 (cmonth c))"
  by (simp add: date_str_def length_year_str length_pad dash)

lemma slice_iso_string: "slice_0_10 (iso_string t) = take 10 (date_str (udate t))"
  by (simp add: slice_0_10_def iso_string_def date_str_def length_year_str length_pad dash)

lemma valid_civil_bounds: "valid_civil c \<Longrightarrow> cmonth c < 100 \<and> cday c < 100"
  by (auto simp: valid_civil_def days_in_month_def split: if_splits)

lemma parse_date_take10:
  assumes v: "valid_civil c" and y: "- 1000000 < cyear c" "cyear c < 1000000"
  shows "parse_date (take 10 (date_str c)) = Some (seen_day c)"
proof (cases "0 \<le> cyear c \<and> cyear c \<le> 9999")
  case True
  have "parse_date (date_str c) = Some c"
    using v valid_civil_bounds [OF v]
    by (simp add: date_str_def dash parse_date_def parse_year_str [OF y] parse_field_pad2
        parse_field_pad2_end valid_civil_def)
  then show ?thesis using True by (simp add: take10_date_str seen_day_def)
next
  case False
  have "parse_date (year_str (cyear c) @ 0x2D # pad 2 (cmonth c) @ [])
        = Some (Civil (cyear c) (cmonth c) 1)"
    using v valid_civil_bounds [OF v]
    by (simp add: parse_date_def parse_year_str [OF y] parse_field_pad2 parse_field_pad2_end
        valid_civil_def)
  then show ?thesis using False by (auto simp: take10_date_str seen_day_def)
qed

section \<open>Calendar steps\<close>

lemma dim_bounds: "28 \<le> days_in_month y m \<and> days_in_month y m \<le> 31"
  by (simp add: days_in_month_def)

lemma valid_seen_day: "valid_civil c \<Longrightarrow> valid_civil (seen_day c)"
  by (auto simp: seen_day_def valid_civil_def days_in_month_def)

lemma ckey_seen_day: "valid_civil c \<Longrightarrow> ckey (seen_day c) \<le> ckey c"
  by (auto simp: seen_day_def valid_civil_def ckey_def)

lemma cyear_seen_day: "cyear (seen_day c) = cyear c"
  by (simp add: seen_day_def)

lemma cyear_prev_day: "valid_civil c \<Longrightarrow> cyear c - 1 \<le> cyear (prev_day c) \<and> cyear (prev_day c) \<le> cyear c"
  by (cases c) auto

lemma add_days_0: "add_days c 0 = c"
  by (simp add: add_days_def)

lemma add_days_m1: "add_days c (- 1) = prev_day c"
  by (simp add: add_days_def)

lemma add_days_1: "add_days c 1 = next_day c"
  by (simp add: add_days_def)

lemma next_days_in_month:
  "k + 1 \<le> days_in_month y m \<Longrightarrow> (next_day ^^ k) (Civil y m 1) = Civil y m (k + 1)"
  by (induction k) auto

lemma MakeDay_prev:
  assumes "valid_civil (Civil y m d)"
  shows "add_days (Civil y m 1) (int d - 2) = prev_day (Civil y m d)"
proof (cases "d = 1")
  case True
  then show ?thesis by (simp add: add_days_def)
next
  case False
  with assms have d: "2 \<le> d" "d \<le> days_in_month y m" by (auto simp: valid_civil_def)
  then have "(next_day ^^ (d - 2)) (Civil y m 1) = Civil y m (d - 2 + 1)"
    by (intro next_days_in_month) simp
  moreover have "nat (int d - 2) = d - 2" by simp
  ultimately show ?thesis using d by (simp add: add_days_def)
qed

lemma dim_december: "days_in_month y 12 = 31"
  by (simp add: days_in_month_def)

lemma dim_pos: "Suc 0 \<le> days_in_month y m"
  using dim_bounds [of y m] by linarith

lemma valid_prev_day: "valid_civil c \<Longrightarrow> valid_civil (prev_day c)"
proof (cases c)
  case (Civil y m d)
  assume "valid_civil c"
  with Civil have v: "1 \<le> m" "m \<le> 12" "1 \<le> d" "d \<le> days_in_month y m"
    by (simp_all add: valid_civil_def)
  consider "1 < d" | "d = 1" "1 < m" | "d = 1" "m = 1" using v by linarith
  then show ?thesis
  proof cases
    case 1
    then show ?thesis using v Civil by (auto simp: valid_civil_def)
  next
    case 2
    then show ?thesis using v Civil dim_pos [of y "m - 1"] by (auto simp: valid_civil_def)
  next
    case 3
    then show ?thesis using Civil by (simp add: valid_civil_def dim_december)
  qed
qed

lemma ckey_prev_day: "valid_civil c \<Longrightarrow> ckey (prev_day c) < ckey c"
proof (cases c)
  case (Civil y m d)
  assume "valid_civil c"
  with Civil have v: "1 \<le> m" "m \<le> 12" "1 \<le> d" "d \<le> days_in_month y m"
    by (simp_all add: valid_civil_def)
  have "days_in_month y (m - 1) \<le> 31" using dim_bounds by blast
  then have "1 < m \<Longrightarrow> (y * 12 + int (m - 1)) * 31 + int (days_in_month y (m - 1)) < (y * 12 + int m) * 31 + 1"
    by simp
  then show ?thesis using v Civil by (auto simp: ckey_def)
qed

lemma next_prev_day: "valid_civil c \<Longrightarrow> next_day (prev_day c) = c"
proof (cases c)
  case (Civil y m d)
  assume "valid_civil c"
  with Civil have v: "1 \<le> m" "m \<le> 12" "1 \<le> d" "d \<le> days_in_month y m"
    by (simp_all add: valid_civil_def)
  show ?thesis
    using v Civil by (auto simp: dim_december)
qed

section \<open>Local midnight\<close>

text \<open>
  In a zone of one fixed offset of less than a day, the local midnight of a day lies
  in that day of UTC, or, east of UTC, in the day before.
\<close>

lemma fixed_offsetD:
  "fixed_offset e \<Longrightarrow> - 1440 < tzOffset e \<and> tzOffset e < 1440"
  by (simp add: fixed_offset_def)

lemma UTC_fixed:
  "fixed_offset e \<Longrightarrow>
   UTC e l = (let total = int (snd l) - tzOffset e * 60000
              in \<lparr>udate = add_days (fst l) (total div msPerDay), ums = nat (total mod msPerDay)\<rparr>)"
  by (simp add: UTC_def minus_offset_def fixed_offset_def tzOffset_def)

lemma LocalTime_fixed:
  "fixed_offset e \<Longrightarrow>
   LocalTime e t = (let total = int (ums t) + tzOffset e * 60000
                    in (add_days (udate t) (total div msPerDay), nat (total mod msPerDay)))"
  by (simp add: LocalTime_def fixed_offset_def tzOffset_def)

lemma UTC_midnight:
  assumes fx: "fixed_offset e"
  shows "UTC e (c, 0) = \<lparr>udate = zshift e c,
           ums = (if 0 < tzOffset e then nat (msPerDay - tzOffset e * 60000)
                  else nat (- (tzOffset e * 60000)))\<rparr>"
proof (cases "0 < tzOffset e")
  note assms = fixed_offsetD [OF fx]
  case True
  have "(- (tzOffset e * 60000)) div 86400000 = - 1"
    using True assms by (intro int_div_pos_eq [where r = "86400000 - tzOffset e * 60000"]) simp_all
  moreover have "(- (tzOffset e * 60000)) mod 86400000 = 86400000 - tzOffset e * 60000"
    using True assms by (intro int_mod_pos_eq [where q = "- 1"]) simp_all
  ultimately show ?thesis using True
    by (simp add: UTC_fixed [OF fx] msPerDay_def zshift_def add_days_m1)
next
  note assms = fixed_offsetD [OF fx]
  case False
  have "(- (tzOffset e * 60000)) div 86400000 = 0"
    using False assms by (intro div_pos_pos_trivial) simp_all
  moreover have "(- (tzOffset e * 60000)) mod 86400000 = - (tzOffset e * 60000)"
    using False assms by (intro mod_pos_pos_trivial) simp_all
  ultimately show ?thesis using False
    by (simp add: UTC_fixed [OF fx] msPerDay_def zshift_def add_days_0)
qed

lemma LocalTime_UTC_midnight:
  assumes fx: "fixed_offset e" and v: "valid_civil c"
  shows "LocalTime e (UTC e (c, 0)) = (c, 0)"
proof (cases "0 < tzOffset e")
  case True
  then show ?thesis using v fixed_offsetD [OF fx]
    by (simp add: UTC_midnight [OF fx] LocalTime_fixed [OF fx] msPerDay_def zshift_def
        add_days_1 next_prev_day)
next
  case False
  then show ?thesis using v fixed_offsetD [OF fx]
    by (simp add: UTC_midnight [OF fx] LocalTime_fixed [OF fx] msPerDay_def zshift_def
        add_days_0)
qed

section \<open>One step of \<open>dateAdd\<close>\<close>

text \<open>
  In a zone of fixed offset and on the first ten code units of a date, \<open>dateAdd\<close>
  with \<open>- 1\<close> parses the day, steps one day back in local time and writes the UTC day
  of that local midnight.
\<close>

lemma new_Date_T0:
  "new_Date e (x @ str ''T00:00:00'') =
     (case parse_date x of None \<Rightarrow> None | Some c \<Rightarrow> TimeClip (UTC e (c, 0)))"
proof -
  have "length (str ''T00:00:00'') = 9" by (simp add: str_def)
  then show ?thesis by (simp add: new_Date_def)
qed

lemma TimeClip_Some: "TimeClip t = Some t' \<Longrightarrow> t' = t"
  by (auto simp: TimeClip_def split: if_splits)

lemma TimeClip_years:
  "TimeClip t = Some t' \<Longrightarrow> - 1000000 < cyear (udate t) \<and> cyear (udate t) < 1000000"
  by (auto simp: TimeClip_def before_def minDate_def maxDate_def split: if_splits)

lemma civil_collapse: "Civil (cyear p) (cmonth p) (cday p) = p"
  by (cases p) simp

lemma setDate_midnight:
  assumes tz: "fixed_offset e" and v: "valid_civil p"
  shows "setDate e (Some (UTC e (p, 0))) (Some (int (cday p) - 1))
         = TimeClip (UTC e (prev_day p, 0))"
proof -
  have "valid_civil (Civil (cyear p) (cmonth p) (cday p))" using v by (simp add: civil_collapse)
  from MakeDay_prev [OF this]
  have "add_days (Civil (cyear p) (cmonth p) 1) (int (cday p) - 2) = prev_day p"
    by (simp add: civil_collapse)
  moreover have "int (cday p) - 1 - 1 = int (cday p) - 2" by simp
  ultimately show ?thesis
    by (simp add: setDate_def LocalTime_UTC_midnight [OF tz v])
qed

lemma dateAdd_slice:
  assumes tz: "fixed_offset e"
    and v: "valid_civil u" and y: "- 1000000 < cyear u" "cyear u < 1000000"
  shows "dateAdd e (take 10 (date_str u)) (- 1) =
     (case TimeClip (UTC e (seen_day u, 0)) of
        None \<Rightarrow> Inl RangeError
      | Some t \<Rightarrow>
          (case TimeClip (UTC e (prev_day (seen_day u), 0)) of
             None \<Rightarrow> Inl RangeError
           | Some t' \<Rightarrow> Inr (take 10 (date_str (zshift e (prev_day (seen_day u)))))))"
proof (cases "TimeClip (UTC e (seen_day u, 0))")
  case None
  then show ?thesis
    by (simp add: dateAdd_def new_Date_T0 parse_date_take10 [OF v y] getDate_def setDate_def
        toISOString_def)
next
  case (Some t)
  then have t: "t = UTC e (seen_day u, 0)" by (rule TimeClip_Some)
  have vp: "valid_civil (seen_day u)" using v by (rule valid_seen_day)
  have g: "getDate e (Some t) = Some (int (cday (seen_day u)))"
    by (simp add: getDate_def t LocalTime_UTC_midnight [OF tz vp])
  have s: "setDate e (Some t) (Some (int (cday (seen_day u)) - 1))
           = TimeClip (UTC e (prev_day (seen_day u), 0))"
    unfolding t by (rule setDate_midnight [OF tz vp])
  show ?thesis
  proof (cases "TimeClip (UTC e (prev_day (seen_day u), 0))")
    case None
    then show ?thesis using Some
      by (simp add: dateAdd_def new_Date_T0 parse_date_take10 [OF v y] g s toISOString_def)
  next
    case (Some t')
    then have "t' = UTC e (prev_day (seen_day u), 0)" by (rule TimeClip_Some)
    then have "udate t' = zshift e (prev_day (seen_day u))"
      by (simp add: UTC_midnight [OF tz])
    then show ?thesis using Some \<open>TimeClip (UTC e (seen_day u, 0)) = Some t\<close>
      by (simp add: dateAdd_def new_Date_T0 parse_date_take10 [OF v y] g s toISOString_def
          slice_iso_string)
  qed
qed

section \<open>The streak\<close>

text \<open>
  In a zone of fixed offset, each turn of the loop finds the cursor in the set and
  moves it to a string of smaller rank, so a turn uses up an element of the set: the
  loop ends, and the count stays within the number of elements.
\<close>

lemma valid_zshift: "valid_civil c \<Longrightarrow> valid_civil (zshift e c)"
  by (simp add: zshift_def valid_prev_day)

lemma ckey_zshift: "valid_civil c \<Longrightarrow> ckey (zshift e c) \<le> ckey c"
  using ckey_prev_day [of c] by (simp add: zshift_def)

lemma rank_slice:
  "valid_civil u \<Longrightarrow> - 1000000 < cyear u \<Longrightarrow> cyear u < 1000000 \<Longrightarrow>
   rank (take 10 (date_str u)) = ckey (seen_day u)"
  by (simp add: rank_def parse_date_take10)

lemma dateAdd_step:
  assumes tz: "fixed_offset e"
    and v: "valid_civil u" and y: "- 1000000 < cyear u" "cyear u < 1000000"
  shows "dateAdd e (take 10 (date_str u)) (- 1) = Inl RangeError
     \<or> (\<exists>u'. dateAdd e (take 10 (date_str u)) (- 1) = Inr (take 10 (date_str u'))
           \<and> valid_civil u' \<and> - 1000000 < cyear u' \<and> cyear u' < 1000000
           \<and> ckey (seen_day u') < ckey (seen_day u))"
proof (cases "TimeClip (UTC e (seen_day u, 0))")
  case None
  then show ?thesis by (simp add: dateAdd_slice [OF tz v y])
next
  case (Some t)
  show ?thesis
  proof (cases "TimeClip (UTC e (prev_day (seen_day u), 0))")
    case None
    then show ?thesis using Some by (simp add: dateAdd_slice [OF tz v y])
  next
    case (Some t')
    let ?u' = "zshift e (prev_day (seen_day u))"
    have vp: "valid_civil (prev_day (seen_day u))"
      using v by (intro valid_prev_day valid_seen_day)
    have "udate (UTC e (prev_day (seen_day u), 0)) = ?u'"
      by (simp add: UTC_midnight [OF tz])
    with TimeClip_years [OF Some]
    have yb: "- 1000000 < cyear ?u'" "cyear ?u' < 1000000" by simp_all
    have vu: "valid_civil ?u'" using vp by (rule valid_zshift)
    have "ckey (seen_day ?u') \<le> ckey ?u'" using vu by (rule ckey_seen_day)
    also have "\<dots> \<le> ckey (prev_day (seen_day u))" using vp by (rule ckey_zshift)
    also have "\<dots> < ckey (seen_day u)" using v by (intro ckey_prev_day valid_seen_day)
    finally have dec: "ckey (seen_day ?u') < ckey (seen_day u)" .
    have "dateAdd e (take 10 (date_str u)) (- 1) = Inr (take 10 (date_str ?u'))"
      using Some \<open>TimeClip (UTC e (seen_day u, 0)) = Some t\<close>
      by (simp add: dateAdd_slice [OF tz v y])
    then show ?thesis using vu yb dec by blast
  qed
qed

lemma streak_loop_bound:
  assumes tz: "fixed_offset e" and fin: "finite S"
  shows "valid_civil u \<Longrightarrow> - 1000000 < cyear u \<Longrightarrow> cyear u < 1000000 \<Longrightarrow>
         \<exists>r. streak_loop e S k (take 10 (date_str u)) = Some r
            \<and> (\<forall>n. r = Inr n \<longrightarrow> n \<le> k + card {s \<in> S. rank s \<le> ckey (seen_day u)})"
proof (induction "card {s \<in> S. rank s \<le> ckey (seen_day u)}" arbitrary: u k rule: less_induct)
  case less
  let ?c = "take 10 (date_str u)"
  let ?A = "{s \<in> S. rank s \<le> ckey (seen_day u)}"
  have rk: "rank ?c = ckey (seen_day u)"
    using less.prems by (intro rank_slice)
  show ?case
  proof (cases "?c \<in> S")
    case False
    then show ?thesis by (subst streak_loop.simps) simp
  next
    case True
    from dateAdd_step [OF tz less.prems]
    consider "dateAdd e ?c (- 1) = Inl RangeError"
      | u' where "dateAdd e ?c (- 1) = Inr (take 10 (date_str u'))" "valid_civil u'"
          "- 1000000 < cyear u'" "cyear u' < 1000000" "ckey (seen_day u') < ckey (seen_day u)"
      by blast
    then show ?thesis
    proof cases
      case 1
      then show ?thesis using True by (subst streak_loop.simps) simp
    next
      case 2
      let ?A' = "{s \<in> S. rank s \<le> ckey (seen_day u')}"
      have "?A' \<subseteq> ?A" using 2(5) by auto
      moreover have "?c \<in> ?A" "?c \<notin> ?A'" using True rk 2(5) by auto
      ultimately have "?A' \<subset> ?A" by blast
      moreover have "finite ?A" using fin by simp
      ultimately have lt: "card ?A' < card ?A" by (rule psubset_card_mono [rotated])
      from less.hyps [OF lt 2(2) 2(3) 2(4), of "k + 1"]
      obtain r where r: "streak_loop e S (k + 1) (take 10 (date_str u')) = Some r"
        "\<forall>n. r = Inr n \<longrightarrow> n \<le> k + 1 + card ?A'" by blast
      have "streak_loop e S k ?c = Some r"
        using True 2(1) r(1) by (subst streak_loop.simps) simp
      moreover have "\<forall>n. r = Inr n \<longrightarrow> n \<le> k + card ?A" using r(2) lt by auto
      ultimately show ?thesis by blast
    qed
  qed
qed

lemma today_slice: "todayISO e = take 10 (date_str (udate (now e)))"
  by (simp add: todayISO_def slice_iso_string)

lemma computeStreak_bound:
  assumes wf: "wf_env e" and tz: "fixed_offset e"
  shows "\<exists>r. computeStreak e cs = Some r \<and> (\<forall>n. r = Inr n \<longrightarrow> n \<le> length cs)"
proof (cases "cs = []")
  case True
  then show ?thesis by (simp add: computeStreak_def)
next
  case False
  from wf have v: "valid_civil (udate (now e))" and tc: "TimeClip (now e) = Some (now e)"
    by (simp_all add: wf_env_def)
  from TimeClip_years [OF tc]
  have y: "- 1000000 < cyear (udate (now e))" "cyear (udate (now e)) < 1000000" by simp_all
  have fin: "finite (set cs)" by simp
  have cardle: "\<And>q. card {s \<in> set cs. rank s \<le> q} \<le> length cs"
  proof -
    fix q
    have "card {s \<in> set cs. rank s \<le> q} \<le> card (set cs)" by (intro card_mono) auto
    also have "\<dots> \<le> length cs" by (rule card_length)
    finally show "card {s \<in> set cs. rank s \<le> q} \<le> length cs" .
  qed
  show ?thesis
  proof (cases "todayISO e \<in> set cs")
    case True
    from streak_loop_bound [OF tz fin v y, of 0]
    obtain r where r: "streak_loop e (set cs) 0 (todayISO e) = Some r"
      "\<forall>n. r = Inr n \<longrightarrow> n \<le> 0 + card {s \<in> set cs. rank s \<le> ckey (seen_day (udate (now e)))}"
      unfolding today_slice by blast
    have "computeStreak e cs = Some r"
      using False True r(1) by (simp add: computeStreak_def)
    moreover have "\<forall>n. r = Inr n \<longrightarrow> n \<le> length cs"
      using r(2) cardle [of "ckey (seen_day (udate (now e)))"] by auto
    ultimately show ?thesis by blast
  next
    case nt: False
    from dateAdd_step [OF tz v y]
    consider "dateAdd e (todayISO e) (- 1) = Inl RangeError"
      | u' where "dateAdd e (todayISO e) (- 1) = Inr (take 10 (date_str u'))" "valid_civil u'"
          "- 1000000 < cyear u'" "cyear u' < 1000000"
      unfolding today_slice by blast
    then show ?thesis
    proof cases
      case 1
      then show ?thesis using False nt by (simp add: computeStreak_def)
    next
      case 2
      from streak_loop_bound [OF tz fin 2(2) 2(3) 2(4), of 0]
      obtain r where r: "streak_loop e (set cs) 0 (take 10 (date_str u')) = Some r"
        "\<forall>n. r = Inr n \<longrightarrow> n \<le> 0 + card {s \<in> set cs. rank s \<le> ckey (seen_day u')}"
        by blast
      have "computeStreak e cs = Some r"
        using False nt 2(1) r(1) by (simp add: computeStreak_def)
      moreover have "\<forall>n. r = Inr n \<longrightarrow> n \<le> length cs"
        using r(2) cardle [of "ckey (seen_day u')"] by auto
      ultimately show ?thesis by blast
    qed
  qed
qed

lemma computeStreak_set: "set cs1 = set cs2 \<Longrightarrow> computeStreak e cs1 = computeStreak e cs2"
proof -
  assume s: "set cs1 = set cs2"
  then have "(cs1 = []) = (cs2 = [])" by (metis set_empty)
  then show ?thesis using s by (simp add: computeStreak_def)
qed

section \<open>Examples of \<open>dateAdd\<close> and of the streak\<close>

lemma date_str_eval:
  "0 \<le> y \<Longrightarrow> y \<le> 9999 \<Longrightarrow>
   take 10 (date_str (Civil y m d)) =
     pad 4 (nat y) @ 0x2D # pad 2 m @ 0x2D # pad 2 d"
  by (simp add: take10_date_str) (simp add: date_str_def year_str_def dash)

lemma TimeClip_plain:
  "- 271821 < cyear (udate t) \<Longrightarrow> cyear (udate t) < 275760 \<Longrightarrow> TimeClip t = Some t"
  by (simp add: TimeClip_def before_def minDate_def maxDate_def)

lemma cyear_prev_day2:
  "valid_civil c \<Longrightarrow> cyear c - 1 \<le> cyear (prev_day (prev_day c))
     \<and> cyear (prev_day (prev_day c)) \<le> cyear c"
  by (cases c) (auto simp: dim_december)

lemma cyear_zshift:
  "valid_civil c \<Longrightarrow> cyear c - 1 \<le> cyear (zshift e (prev_day c))
     \<and> cyear (zshift e (prev_day c)) \<le> cyear c"
  using cyear_prev_day2 [of c] cyear_prev_day [of c] by (simp add: zshift_def)

lemma cyear_zshift0:
  "valid_civil c \<Longrightarrow> cyear c - 1 \<le> cyear (zshift e c) \<and> cyear (zshift e c) \<le> cyear c"
  using cyear_prev_day [of c] by (simp add: zshift_def)

lemma dateAdd_plain:
  assumes tz: "fixed_offset e"
    and v: "valid_civil u" and y: "0 \<le> cyear u" "cyear u \<le> 9999"
  shows "dateAdd e (take 10 (date_str u)) (- 1)
         = Inr (take 10 (date_str (zshift e (prev_day u))))"
proof -
  have s: "seen_day u = u" using y by (simp add: seen_day_def)
  have yb: "- 1000000 < cyear u" "cyear u < 1000000" using y by simp_all
  have vp: "valid_civil (prev_day u)" using v by (rule valid_prev_day)
  have "TimeClip (UTC e (u, 0)) = Some (UTC e (u, 0))"
    using cyear_zshift0 [OF v, of e] y
    by (intro TimeClip_plain) (simp_all add: UTC_midnight [OF tz])
  moreover have "TimeClip (UTC e (prev_day u, 0)) = Some (UTC e (prev_day u, 0))"
    using cyear_zshift [OF v, of e] y
    by (intro TimeClip_plain) (simp_all add: UTC_midnight [OF tz])
  ultimately show ?thesis
    by (simp add: dateAdd_slice [OF tz v yb] s)
qed

lemma wf_env_plus1: "wf_env env_plus1"
  by (simp add: wf_env_def env_plus1_def valid_civil_def days_in_month_def msPerDay_def
      TimeClip_def before_def minDate_def maxDate_def)

lemma wf_env_minus5: "wf_env env_minus5"
  by (simp add: wf_env_def env_minus5_def valid_civil_def days_in_month_def msPerDay_def
      TimeClip_def before_def minDate_def maxDate_def)

lemma march_2024:
  "d < 100 \<Longrightarrow> take 10 (date_str (Civil 2024 3 d))
     = [50, 48, 50, 52, 45, 48, 51, 45, digit_chr (d div 10 mod 10), digit_chr (d mod 10)]"
  by (simp add: date_str_eval pad4 pad2 digit_chr_def)

lemma valid_march_2024: "1 \<le> d \<Longrightarrow> d \<le> 31 \<Longrightarrow> valid_civil (Civil 2024 3 d)"
  by (simp add: valid_civil_def days_in_month_def)

lemma dateAdd_east:
  "2 < d \<Longrightarrow> d \<le> 31 \<Longrightarrow>
   dateAdd env_plus1 (take 10 (date_str (Civil 2024 3 d))) (- 1)
     = Inr (take 10 (date_str (Civil 2024 3 (d - 2))))"
proof -
  assume d: "2 < d" "d \<le> 31"
  have tz: "fixed_offset env_plus1"
    by (simp add: fixed_offset_def tzOffset_def env_plus1_def)
  have v: "valid_civil (Civil 2024 3 d)" using d by (intro valid_march_2024) simp_all
  have z: "zshift env_plus1 (prev_day (Civil 2024 3 d)) = Civil 2024 3 (d - 2)"
    using d by (auto simp: zshift_def tzOffset_def env_plus1_def)
  have "dateAdd env_plus1 (take 10 (date_str (Civil 2024 3 d))) (- 1)
        = Inr (take 10 (date_str (zshift env_plus1 (prev_day (Civil 2024 3 d)))))"
    by (rule dateAdd_plain [OF tz v]) simp_all
  then show ?thesis by (simp only: z)
qed

lemma dateAdd_west:
  "1 < d \<Longrightarrow> d \<le> 31 \<Longrightarrow>
   dateAdd env_minus5 (take 10 (date_str (Civil 2024 3 d))) (- 1)
     = Inr (take 10 (date_str (Civil 2024 3 (d - 1))))"
proof -
  assume d: "1 < d" "d \<le> 31"
  have tz: "fixed_offset env_minus5"
    by (simp add: fixed_offset_def tzOffset_def env_minus5_def)
  have v: "valid_civil (Civil 2024 3 d)" using d by (intro valid_march_2024) simp_all
  have z: "zshift env_minus5 (prev_day (Civil 2024 3 d)) = Civil 2024 3 (d - 1)"
    using d by (auto simp: zshift_def tzOffset_def env_minus5_def)
  have "dateAdd env_minus5 (take 10 (date_str (Civil 2024 3 d))) (- 1)
        = Inr (take 10 (date_str (zshift env_minus5 (prev_day (Civil 2024 3 d)))))"
    by (rule dateAdd_plain [OF tz v]) simp_all
  then show ?thesis by (simp only: z)
qed

lemma str_march_2024:
  "str ''2024-03-10'' = take 10 (date_str (Civil 2024 3 10))"
  "str ''2024-03-09'' = take 10 (date_str (Civil 2024 3 9))"
  "str ''2024-03-08'' = take 10 (date_str (Civil 2024 3 8))"
  "str ''2024-03-07'' = take 10 (date_str (Civil 2024 3 7))"
  "str ''2024-03-06'' = take 10 (date_str (Civil 2024 3 6))"
  by (simp_all add: march_2024 digit_chr_def str_def)

lemma today_examples:
  "todayISO env_plus1 = str ''2024-03-10''" "todayISO env_minus5 = str ''2024-03-10''"
  by (simp_all add: today_slice str_march_2024 env_plus1_def env_minus5_def)

lemma dateAdd_examples:
  "dateAdd env_plus1 (str ''2024-03-10'') (- 1) = Inr (str ''2024-03-08'')"
  "dateAdd env_plus1 (str ''2024-03-08'') (- 1) = Inr (str ''2024-03-06'')"
  "dateAdd env_minus5 (str ''2024-03-10'') (- 1) = Inr (str ''2024-03-09'')"
  "dateAdd env_minus5 (str ''2024-03-09'') (- 1) = Inr (str ''2024-03-08'')"
  "dateAdd env_minus5 (str ''2024-03-08'') (- 1) = Inr (str ''2024-03-07'')"
  by (simp_all add: str_march_2024 dateAdd_east dateAdd_west)

lemma distinct_examples:
  "str ''2024-03-10'' \<noteq> str ''2024-03-09''" "str ''2024-03-10'' \<noteq> str ''2024-03-08''"
  "str ''2024-03-06'' \<noteq> str ''2024-03-09''" "str ''2024-03-06'' \<noteq> str ''2024-03-08''"
  "str ''2024-03-07'' \<noteq> str ''2024-03-09''" "str ''2024-03-07'' \<noteq> str ''2024-03-08''"
  "str ''2024-03-08'' \<noteq> str ''2024-03-09''"
  by (simp_all add: str_def)

lemma streak_west:
  "computeStreak env_minus5 [str ''2024-03-09'', str ''2024-03-08''] = Some (Inr 2)"
proof -
  have a: "\<And>k. streak_loop env_minus5 {str ''2024-03-09'', str ''2024-03-08''} k (str ''2024-03-07'')
           = Some (Inr k)"
    by (subst streak_loop.simps) (simp add: distinct_examples)
  have b: "\<And>k. streak_loop env_minus5 {str ''2024-03-09'', str ''2024-03-08''} k (str ''2024-03-08'')
           = Some (Inr (k + 1))"
    by (subst streak_loop.simps) (simp add: dateAdd_examples a)
  have c: "\<And>k. streak_loop env_minus5 {str ''2024-03-09'', str ''2024-03-08''} k (str ''2024-03-09'')
           = Some (Inr (k + 1 + 1))"
    by (subst streak_loop.simps) (simp add: dateAdd_examples b)
  show ?thesis
    by (simp add: computeStreak_def today_examples dateAdd_examples distinct_examples c)
qed

lemma streak_east:
  "computeStreak env_plus1 [str ''2024-03-09'', str ''2024-03-08''] = Some (Inr 1)"
proof -
  have a: "\<And>k. streak_loop env_plus1 {str ''2024-03-09'', str ''2024-03-08''} k (str ''2024-03-06'')
           = Some (Inr k)"
    by (subst streak_loop.simps) (simp add: distinct_examples)
  have b: "\<And>k. streak_loop env_plus1 {str ''2024-03-09'', str ''2024-03-08''} k (str ''2024-03-08'')
           = Some (Inr (k + 1))"
    by (subst streak_loop.simps) (simp add: dateAdd_examples a)
  show ?thesis
    by (simp add: computeStreak_def today_examples dateAdd_examples distinct_examples b)
qed

section \<open>The streak is a number\<close>

text \<open>
  In a zone of fixed offset the loop can only end in a RangeError when the cursor
  reaches the first days of \<open>Date\<close>, in the year -271821. Each turn goes back by less than a year and uses up
  an element of the set, so a list shorter than the distance in years from there to
  today always gets a number.
\<close>

lemma dateAdd_in_range:
  assumes tz: "fixed_offset e"
    and v: "valid_civil u" and y: "- 271819 < cyear u" "cyear u < 275760"
  shows "dateAdd e (take 10 (date_str u)) (- 1)
         = Inr (take 10 (date_str (zshift e (prev_day (seen_day u)))))"
proof -
  let ?p = "seen_day u"
  have vp: "valid_civil ?p" using v by (rule valid_seen_day)
  have yp: "cyear ?p = cyear u" by (rule cyear_seen_day)
  have yb: "- 1000000 < cyear u" "cyear u < 1000000" using y by simp_all
  have "TimeClip (UTC e (?p, 0)) = Some (UTC e (?p, 0))"
    using cyear_zshift0 [OF vp, of e] y yp
    by (intro TimeClip_plain) (simp_all add: UTC_midnight [OF tz])
  moreover have "TimeClip (UTC e (prev_day ?p, 0)) = Some (UTC e (prev_day ?p, 0))"
    using cyear_zshift [OF vp, of e] y yp
    by (intro TimeClip_plain) (simp_all add: UTC_midnight [OF tz])
  ultimately show ?thesis
    by (simp add: dateAdd_slice [OF tz v yb])
qed

lemma streak_loop_number:
  assumes tz: "fixed_offset e" and fin: "finite S"
  shows "valid_civil u \<Longrightarrow> cyear u < 275760 \<Longrightarrow>
         - 271820 + int (card {s \<in> S. rank s \<le> ckey (seen_day u)}) < cyear u \<Longrightarrow>
         \<exists>n. streak_loop e S k (take 10 (date_str u)) = Some (Inr n)"
proof (induction "card {s \<in> S. rank s \<le> ckey (seen_day u)}" arbitrary: u k rule: less_induct)
  case less
  let ?c = "take 10 (date_str u)"
  let ?A = "{s \<in> S. rank s \<le> ckey (seen_day u)}"
  have yb: "- 1000000 < cyear u" "cyear u < 1000000" using less.prems by simp_all
  have rk: "rank ?c = ckey (seen_day u)"
    using less.prems(1) yb by (intro rank_slice)
  show ?case
  proof (cases "?c \<in> S")
    case False
    then show ?thesis by (subst streak_loop.simps) simp
  next
    case True
    let ?u' = "zshift e (prev_day (seen_day u))"
    let ?A' = "{s \<in> S. rank s \<le> ckey (seen_day ?u')}"
    have fA: "finite ?A" using fin by simp
    have "?c \<in> ?A" using True rk by simp
    then have pos: "0 < card ?A" using fA by (auto simp: card_gt_0_iff)
    have vs: "valid_civil (seen_day u)" using less.prems(1) by (rule valid_seen_day)
    have vp: "valid_civil (prev_day (seen_day u))" using vs by (rule valid_prev_day)
    have vu: "valid_civil ?u'" using vp by (rule valid_zshift)
    have yu: "cyear u - 1 \<le> cyear ?u'" "cyear ?u' \<le> cyear u"
      using cyear_zshift [OF vs, of e] by (simp_all add: cyear_seen_day)
    have step: "dateAdd e ?c (- 1) = Inr (take 10 (date_str ?u'))"
      using less.prems pos by (intro dateAdd_in_range [OF tz]) simp_all
    have "ckey (seen_day ?u') \<le> ckey ?u'" using vu by (rule ckey_seen_day)
    also have "\<dots> \<le> ckey (prev_day (seen_day u))" using vp by (rule ckey_zshift)
    also have "\<dots> < ckey (seen_day u)" using vs by (rule ckey_prev_day)
    finally have dec: "ckey (seen_day ?u') < ckey (seen_day u)" .
    have "?A' \<subseteq> ?A" using dec by auto
    moreover have "?c \<notin> ?A'" using rk dec by auto
    ultimately have "?A' \<subset> ?A" using \<open>?c \<in> ?A\<close> by blast
    then have lt: "card ?A' < card ?A" using fA by (rule psubset_card_mono [rotated])
    have "- 271820 + int (card ?A') < cyear ?u'" using lt less.prems(3) yu(1) by linarith
    moreover have "cyear ?u' < 275760" using yu(2) less.prems(2) by simp
    ultimately obtain n where "streak_loop e S (k + 1) (take 10 (date_str ?u')) = Some (Inr n)"
      using less.hyps [OF lt vu, of "k + 1"] by blast
    then have "streak_loop e S k ?c = Some (Inr n)"
      using True step by (subst streak_loop.simps) simp
    then show ?thesis by blast
  qed
qed

lemma computeStreak_number:
  assumes wf: "wf_env e" and tz: "fixed_offset e"
    and y: "cyear (udate (now e)) < 275760"
      "- 271819 + int (length cs) < cyear (udate (now e))"
  shows "\<exists>n. computeStreak e cs = Some (Inr n)"
proof (cases "cs = []")
  case True
  then show ?thesis by (simp add: computeStreak_def)
next
  case False
  let ?t = "udate (now e)"
  from wf have v: "valid_civil ?t"
    by (simp_all add: wf_env_def)
  have fin: "finite (set cs)" by simp
  have cardle: "\<And>q. int (card {s \<in> set cs. rank s \<le> q}) \<le> int (length cs)"
  proof -
    fix q
    have "card {s \<in> set cs. rank s \<le> q} \<le> card (set cs)" by (intro card_mono) auto
    also have "\<dots> \<le> length cs" by (rule card_length)
    finally show "int (card {s \<in> set cs. rank s \<le> q}) \<le> int (length cs)" by simp
  qed
  show ?thesis
  proof (cases "todayISO e \<in> set cs")
    case True
    have "- 271820 + int (card {s \<in> set cs. rank s \<le> ckey (seen_day ?t)}) < cyear ?t"
      using cardle [of "ckey (seen_day ?t)"] y(2) by linarith
    from streak_loop_number [OF tz fin v y(1) this, of 0]
    show ?thesis using False True by (simp add: computeStreak_def today_slice)
  next
    case nt: False
    let ?u' = "zshift e (prev_day (seen_day ?t))"
    have vs: "valid_civil (seen_day ?t)" using v by (rule valid_seen_day)
    have vu: "valid_civil ?u'" using vs by (intro valid_zshift valid_prev_day)
    have yu: "cyear ?t - 1 \<le> cyear ?u'" "cyear ?u' \<le> cyear ?t"
      using cyear_zshift [OF vs, of e] by (simp_all add: cyear_seen_day)
    have step: "dateAdd e (todayISO e) (- 1) = Inr (take 10 (date_str ?u'))"
      unfolding today_slice using v y by (intro dateAdd_in_range [OF tz]) simp_all
    have "- 271820 + int (card {s \<in> set cs. rank s \<le> ckey (seen_day ?u')}) < cyear ?u'"
      using cardle [of "ckey (seen_day ?u')"] y(2) yu(1) by linarith
    moreover have "cyear ?u' < 275760" using yu(2) y(1) by simp
    ultimately obtain n where "streak_loop e (set cs) 0 (take 10 (date_str ?u')) = Some (Inr n)"
      using streak_loop_number [OF tz fin vu, of 0] by blast
    then show ?thesis using False nt step by (simp add: computeStreak_def)
  qed
qed

section \<open>The walk of the specification\<close>

text \<open>
  In a zone of fixed offset at or west of UTC, with today in the years 1 to 9999 and
  no completion dated 0000-01-01, \<open>computeStreak\<close> returns what the walk of the specification counts.
\<close>

lemma date_str_plain:
  "0 \<le> cyear c \<Longrightarrow> cyear c \<le> 9999 \<Longrightarrow> take 10 (date_str c) = date_str c"
  by (simp add: take10_date_str)

lemma prev_day_year0:
  "valid_civil c \<Longrightarrow> 0 \<le> cyear c \<Longrightarrow> c \<noteq> Civil 0 1 1 \<Longrightarrow> 0 \<le> cyear (prev_day c)"
  by (cases c) (auto simp: valid_civil_def)

lemma loop_follows_spec:
  assumes tz: "fixed_offset e" and west: "tzOffset e \<le> 0" and fin: "finite S"
    and z: "date_str (Civil 0 1 1) \<notin> S"
  shows "valid_civil c \<Longrightarrow> 0 \<le> cyear c \<Longrightarrow> cyear c \<le> 9999 \<Longrightarrow>
         (\<exists>n. spec_walk S k c = Some n)
         \<and> streak_loop e S k (date_str c) = map_option Inr (spec_walk S k c)"
proof (induction "card {s \<in> S. rank s \<le> ckey c}" arbitrary: c k rule: less_induct)
  case less
  note tz' = tz
  have pl: "take 10 (date_str c) = date_str c" using less.prems by (intro date_str_plain)
  have rk: "rank (date_str c) = ckey c"
    using rank_slice [of c] less.prems by (simp add: pl seen_day_def)
  show ?case
  proof (cases "date_str c \<in> S")
    case False
    then show ?thesis
      by (subst streak_loop.simps, subst (1 2) spec_walk.simps) simp
  next
    case True
    let ?p = "prev_day c"
    have "c \<noteq> Civil 0 1 1" using True z by auto
    then have py: "0 \<le> cyear ?p" "cyear ?p \<le> 9999"
      using prev_day_year0 [of c] cyear_prev_day [of c] less.prems by simp_all
    have vp: "valid_civil ?p" using less.prems(1) by (rule valid_prev_day)
    have "dateAdd e (take 10 (date_str c)) (- 1) = Inr (take 10 (date_str (zshift e ?p)))"
      using less.prems by (intro dateAdd_plain [OF tz']) 
    then have step: "dateAdd e (date_str c) (- 1) = Inr (date_str ?p)"
      using west py by (simp add: pl zshift_def date_str_plain)
    have lt: "ckey ?p < ckey c" using less.prems(1) by (rule ckey_prev_day)
    let ?A = "{s \<in> S. rank s \<le> ckey c}" and ?A' = "{s \<in> S. rank s \<le> ckey ?p}"
    have "?A' \<subseteq> ?A" using lt by auto
    moreover have "date_str c \<in> ?A" "date_str c \<notin> ?A'" using True rk lt by auto
    ultimately have "?A' \<subset> ?A" by blast
    moreover have "finite ?A" using fin by simp
    ultimately have "card ?A' < card ?A" by (rule psubset_card_mono [rotated])
    from less.hyps [OF this vp py, of "k + 1"]
    obtain n where n: "spec_walk S (k + 1) ?p = Some n"
      "streak_loop e S (k + 1) (date_str ?p) = map_option Inr (spec_walk S (k + 1) ?p)"
      by blast
    have "spec_walk S k c = Some n"
      using True n(1) by (subst spec_walk.simps) simp
    moreover have "streak_loop e S k (date_str c) = Some (Inr n)"
      using True step n by (subst streak_loop.simps) simp
    ultimately show ?thesis by simp
  qed
qed

lemma streak_follows_spec_west:
  assumes wf: "wf_env e" and tz: "fixed_offset e" and west: "tzOffset e \<le> 0"
    and y: "1 \<le> cyear (udate (now e))" "cyear (udate (now e)) \<le> 9999"
    and z: "date_str (Civil 0 1 1) \<notin> set cs"
  shows "(\<exists>n. spec_streak (udate (now e)) cs = Some n)
         \<and> computeStreak e cs = map_option Inr (spec_streak (udate (now e)) cs)"
proof (cases "cs = []")
  case True
  then show ?thesis by (simp add: computeStreak_def spec_streak_def)
next
  case False
  let ?t = "udate (now e)"
  from wf have v: "valid_civil ?t"
    by (simp_all add: wf_env_def)
  have y0: "0 \<le> cyear ?t" using y by simp
  have today: "todayISO e = date_str ?t"
    using y by (simp add: today_slice date_str_plain)
  have fin: "finite (set cs)" by simp
  show ?thesis
  proof (cases "date_str ?t \<in> set cs")
    case True
    from loop_follows_spec [OF tz west fin z v y0 y(2), of 0]
    show ?thesis using False True by (simp add: computeStreak_def spec_streak_def today)
  next
    case nt: False
    let ?p = "prev_day ?t"
    have vp: "valid_civil ?p" using v by (rule valid_prev_day)
    have py: "0 \<le> cyear ?p" "cyear ?p \<le> 9999" using cyear_prev_day [OF v] y by simp_all
    have "dateAdd e (take 10 (date_str ?t)) (- 1) = Inr (take 10 (date_str (zshift e ?p)))"
      using v y0 y(2) by (intro dateAdd_plain [OF tz])
    then have step: "dateAdd e (date_str ?t) (- 1) = Inr (date_str ?p)"
      using west py y by (simp add: zshift_def date_str_plain)
    from loop_follows_spec [OF tz west fin z vp py, of 0]
    show ?thesis using False nt step by (simp add: computeStreak_def spec_streak_def today)
  qed
qed

lemma date_str_march:
  "date_str (Civil 2024 3 10) = str ''2024-03-10''"
  "date_str (Civil 2024 3 9) = str ''2024-03-09''"
  "date_str (Civil 2024 3 8) = str ''2024-03-08''"
  "date_str (Civil 2024 3 7) = str ''2024-03-07''"
  using date_str_plain [of "Civil 2024 3 10"] date_str_plain [of "Civil 2024 3 9"]
    date_str_plain [of "Civil 2024 3 8"] date_str_plain [of "Civil 2024 3 7"]
  by (simp_all add: str_march_2024)

lemma spec_two_days:
  "spec_streak (Civil 2024 3 10) [str ''2024-03-09'', str ''2024-03-08''] = Some 2"
proof -
  have a: "\<And>k. spec_walk {str ''2024-03-09'', str ''2024-03-08''} k (Civil 2024 3 7) = Some k"
    by (subst spec_walk.simps) (simp add: date_str_march distinct_examples)
  have b: "\<And>k. spec_walk {str ''2024-03-09'', str ''2024-03-08''} k (Civil 2024 3 8) = Some (k + 1)"
    by (subst spec_walk.simps) (simp add: date_str_march a)
  have c: "\<And>k. spec_walk {str ''2024-03-09'', str ''2024-03-08''} k (Civil 2024 3 9) = Some (k + 1 + 1)"
    by (subst spec_walk.simps) (simp add: date_str_march b)
  show ?thesis
    by (simp add: spec_streak_def date_str_march distinct_examples c)
qed

section \<open>What a returned streak counts\<close>

text \<open>
  In whatever zone: when the loop returns a number, the cursors it has counted are
  different elements of the set, since a cursor met twice would be met for ever. So
  a returned streak is at most the number of completions.
\<close>

lemma streak_loop_run:
  assumes run: "streak_loop e S k c = Some r"
  shows "\<forall>n. r = Inr n \<longrightarrow>
     (\<exists>m. n = k + m
        \<and> (\<forall>i<m. \<exists>d. cursor_after e c i = Inr d \<and> d \<in> S)
        \<and> (\<exists>d. cursor_after e c m = Inr d \<and> d \<notin> S))"
proof (rule streak_loop.raw_induct [OF _ run])
  fix loop e S k c r
  assume IH: "\<And>e S k c r. loop e S k c = Some r \<Longrightarrow>
      \<forall>n. r = Inr n \<longrightarrow>
        (\<exists>m. n = k + m
           \<and> (\<forall>i<m. \<exists>d. cursor_after e c i = Inr d \<and> d \<in> S)
           \<and> (\<exists>d. cursor_after e c m = Inr d \<and> d \<notin> S))"
    and body: "(if c \<in> S
                then case dateAdd e c (- 1) of Inl x \<Rightarrow> Some (Inl x)
                     | Inr cursor' \<Rightarrow> loop e S (k + 1) cursor'
                else Some (Inr k)) = Some r"
  show "\<forall>n. r = Inr n \<longrightarrow>
     (\<exists>m. n = k + m
        \<and> (\<forall>i<m. \<exists>d. cursor_after e c i = Inr d \<and> d \<in> S)
        \<and> (\<exists>d. cursor_after e c m = Inr d \<and> d \<notin> S))"
  proof (intro allI impI)
    fix n
    assume r: "r = Inr n"
    show "\<exists>m. n = k + m
        \<and> (\<forall>i<m. \<exists>d. cursor_after e c i = Inr d \<and> d \<in> S)
        \<and> (\<exists>d. cursor_after e c m = Inr d \<and> d \<notin> S)"
    proof (cases "c \<in> S")
      case False
      with body r have "n = k" by simp
      then show ?thesis using False by (intro exI [of _ 0]) simp
    next
      case True
      show ?thesis
      proof (cases "dateAdd e c (- 1)")
        case (Inl x)
        with body True r show ?thesis by simp
      next
        case (Inr c')
        with body True have "loop e S (k + 1) c' = Some r" by simp
        from IH [OF this] r obtain m where m: "n = k + 1 + m"
          "\<forall>i<m. \<exists>d. cursor_after e c' i = Inr d \<and> d \<in> S"
          "\<exists>d. cursor_after e c' m = Inr d \<and> d \<notin> S" by blast
        have "\<exists>d. cursor_after e c i = Inr d \<and> d \<in> S" if "i < Suc m" for i
        proof (cases i)
          case 0
          then show ?thesis using True by simp
        next
          case (Suc j)
          then show ?thesis using that m(2) Inr by simp
        qed
        moreover have "\<exists>d. cursor_after e c (Suc m) = Inr d \<and> d \<notin> S"
          using m(3) Inr by simp
        moreover have "n = k + Suc m" using m(1) by simp
        ultimately show ?thesis by blast
      qed
    qed
  qed
qed

lemma cursor_after_add:
  "cursor_after e c (i + j) =
     (case cursor_after e c i of Inl x \<Rightarrow> Inl x | Inr d \<Rightarrow> cursor_after e d j)"
  by (induction i arbitrary: c) (auto split: sum.splits)

lemma run_within_set:
  assumes fin: "finite S"
    and inS: "\<forall>i<m. \<exists>d. cursor_after e c i = Inr d \<and> d \<in> S"
    and out: "\<exists>d. cursor_after e c m = Inr d \<and> d \<notin> S"
  shows "m \<le> card S"
proof -
  have inj: "inj_on (cursor_after e c) {..<m}"
  proof (rule inj_onI)
    fix i j
    assume ij: "i \<in> {..<m}" "j \<in> {..<m}" and eq: "cursor_after e c i = cursor_after e c j"
    have ne: False if lt: "a < b" "b < m" and same: "cursor_after e c a = cursor_after e c b"
      for a b
    proof -
      from lt have "a < m" by simp
      with inS obtain d where d: "cursor_after e c a = Inr d" by blast
      have "cursor_after e c (a + (m - b)) = cursor_after e d (m - b)"
        by (simp add: cursor_after_add d)
      also have "\<dots> = cursor_after e c (b + (m - b))"
      proof -
        from same d have "cursor_after e c b = Inr d" by simp
        then show ?thesis by (simp add: cursor_after_add)
      qed
      also have "\<dots> = cursor_after e c m" using lt by simp
      finally have "cursor_after e c (a + (m - b)) = cursor_after e c m" .
      moreover have "a + (m - b) < m" using lt by simp
      ultimately show False using inS out by force
    qed
    show "i = j"
    proof (rule ccontr)
      assume "i \<noteq> j"
      then consider "i < j" | "j < i" by linarith
      then show False using ne [of i j] ne [of j i] ij eq by cases auto
    qed
  qed
  have "cursor_after e c ` {..<m} \<subseteq> Inr ` S" using inS by force
  then have "card (cursor_after e c ` {..<m}) \<le> card (Inr ` S :: (exn + jsstring) set)"
    using fin by (intro card_mono) simp_all
  also have "\<dots> \<le> card S" by (rule card_image_le [OF fin])
  finally show ?thesis using inj by (simp add: card_image)
qed

lemma streak_loop_counts:
  assumes "finite S" and "streak_loop e S k c = Some (Inr n)"
  shows "n \<le> k + card S"
proof -
  from streak_loop_run [OF assms(2)] obtain m where m: "n = k + m"
    "\<forall>i<m. \<exists>d. cursor_after e c i = Inr d \<and> d \<in> S"
    "\<exists>d. cursor_after e c m = Inr d \<and> d \<notin> S" by blast
  from run_within_set [OF assms(1) m(2) m(3)] m(1) show ?thesis by simp
qed

lemma computeStreak_returned:
  assumes "computeStreak e cs = Some (Inr n)"
  shows "n \<le> length cs"
proof (cases "cs = []")
  case True
  with assms show ?thesis by (simp add: computeStreak_def)
next
  case False
  with assms obtain c where "streak_loop e (set cs) 0 c = Some (Inr n)"
    by (auto simp: computeStreak_def Let_def split: sum.splits if_splits)
  from streak_loop_counts [OF _ this] have "n \<le> card (set cs)" by simp
  also have "\<dots> \<le> length cs" by (rule card_length)
  finally show ?thesis .
qed

section \<open>A zone that skips a day\<close>

text \<open>
  A cursor of the set that \<open>dateAdd\<close> gives back unchanged keeps the loop turning for
  ever. Pacific/Apia has such a date: its 30 December 2011 does not exist, the
  midnight of that day is read with the old offset as 10:00 UTC, which is the
  midnight of 31 December there; the day before that one is again the 30th.
\<close>

lemma streak_loop_stuck_aux:
  assumes c: "cursor \<in> S" and f: "dateAdd e cursor (- 1) = Inr cursor"
    and run: "streak_loop e' S' k c' = Some y"
  shows "\<not> (e' = e \<and> S' = S \<and> c' = cursor)"
proof (rule streak_loop.raw_induct [OF _ run])
  fix loop e' S' k c' y
  assume IH: "\<And>e' S' k c' y. loop e' S' k c' = Some y
                \<Longrightarrow> \<not> (e' = e \<and> S' = S \<and> c' = cursor)"
    and body: "(if c' \<in> S'
                then case dateAdd e' c' (- 1) of Inl x \<Rightarrow> Some (Inl x)
                     | Inr cursor' \<Rightarrow> loop e' S' (k + 1) cursor'
                else Some (Inr k)) = Some y"
  show "\<not> (e' = e \<and> S' = S \<and> c' = cursor)"
  proof
    assume "e' = e \<and> S' = S \<and> c' = cursor"
    with body c f have "loop e S (k + 1) cursor = Some y" by simp
    from IH [OF this] show False by simp
  qed
qed

lemma streak_loop_stuck:
  assumes "cursor \<in> S" and "dateAdd e cursor (- 1) = Inr cursor"
  shows "streak_loop e S k cursor = None"
proof (cases "streak_loop e S k cursor")
  case None
  then show ?thesis .
next
  case (Some y)
  from streak_loop_stuck_aux [OF assms Some] show ?thesis by simp
qed

lemma apia_date: "str ''2011-12-30'' = take 10 (date_str (Civil 2011 12 30))"
  by (simp add: date_str_eval pad4 pad2 digit_chr_def str_def)

lemma apia_today: "todayISO env_apia = str ''2011-12-30''"
  by (simp add: today_slice apia_date env_apia_def)

lemma apia_parse: "parse_date (str ''2011-12-30'') = Some (Civil 2011 12 30)"
proof -
  have "valid_civil (Civil 2011 12 30)" by (simp add: valid_civil_def days_in_month_def)
  from parse_date_take10 [OF this] show ?thesis by (simp add: apia_date seen_day_def)
qed

lemma apia_UTC_skipped:
  "UTC env_apia (Civil 2011 12 30, 0) = \<lparr>udate = Civil 2011 12 30, ums = 36000000\<rparr>"
  by (simp add: UTC_def env_apia_def minus_offset_def msPerDay_def earlier_def before_def
      add_days_0 add_days_m1)

lemma apia_LocalTime:
  "LocalTime env_apia \<lparr>udate = Civil 2011 12 30, ums = 36000000\<rparr> = (Civil 2011 12 31, 0)"
  by (simp add: LocalTime_def env_apia_def msPerDay_def earlier_def before_def add_days_1
      days_in_month_def)

lemma apia_TimeClip:
  "TimeClip \<lparr>udate = Civil 2011 12 30, ums = 36000000\<rparr>
     = Some \<lparr>udate = Civil 2011 12 30, ums = 36000000\<rparr>"
  by (simp add: TimeClip_def before_def minDate_def maxDate_def)

lemma apia_MakeDay: "add_days (Civil 2011 12 (Suc 0)) 29 = Civil 2011 12 30"
proof -
  have "(next_day ^^ 29) (Civil 2011 12 1) = Civil 2011 12 (29 + 1)"
    by (rule next_days_in_month) (simp add: days_in_month_def)
  then show ?thesis by (simp add: add_days_def)
qed

lemma apia_dateAdd: "dateAdd env_apia (str ''2011-12-30'') (- 1) = Inr (str ''2011-12-30'')"
proof -
  have n: "new_Date env_apia (str ''2011-12-30'' @ str ''T00:00:00'')
           = Some \<lparr>udate = Civil 2011 12 30, ums = 36000000\<rparr>"
    by (simp add: new_Date_T0 apia_parse apia_UTC_skipped apia_TimeClip)
  have g: "getDate env_apia (Some \<lparr>udate = Civil 2011 12 30, ums = 36000000\<rparr>) = Some 31"
    by (simp add: getDate_def apia_LocalTime)
  have s: "setDate env_apia (Some \<lparr>udate = Civil 2011 12 30, ums = 36000000\<rparr>) (Some 30)
           = Some \<lparr>udate = Civil 2011 12 30, ums = 36000000\<rparr>"
    by (simp add: setDate_def apia_LocalTime apia_MakeDay apia_UTC_skipped apia_TimeClip)
  have i: "slice_0_10 (iso_string \<lparr>udate = Civil 2011 12 30, ums = 36000000\<rparr>)
           = str ''2011-12-30''"
    by (simp add: slice_iso_string apia_date)
  show ?thesis by (simp add: dateAdd_def n g s toISOString_def i)
qed

lemma apia_never_returns:
  "str ''2011-12-30'' \<in> set cs \<Longrightarrow> computeStreak env_apia cs = None"
proof -
  assume m: "str ''2011-12-30'' \<in> set cs"
  then have "cs \<noteq> []" by auto
  moreover have "streak_loop env_apia (set cs) 0 (str ''2011-12-30'') = None"
    using m apia_dateAdd by (rule streak_loop_stuck)
  ultimately show ?thesis using m by (simp add: computeStreak_def apia_today)
qed

lemma wf_env_apia: "wf_env env_apia"
  by (simp add: wf_env_def env_apia_def valid_civil_def days_in_month_def msPerDay_def
      TimeClip_def before_def minDate_def maxDate_def)

section \<open>The claims on the streak\<close>

text \<open>
  C6. In Pacific/Apia, at 12:00 UTC on 30 December 2011 and with today completed,
  \<open>computeStreak\<close> does not return: \<open>dateAdd\<close> gives the cursor \<open>2011-12-30\<close> back as
  it is, and the counter grows without end past the one completion there is. No
  streak comes out to be at most \<open>totalCompletions\<close>.
\<close>

theorem streak_never_returns_apia:
  "todayISO env_apia = str ''2011-12-30''
   \<and> dateAdd env_apia (str ''2011-12-30'') (- 1) = Inr (str ''2011-12-30'')
   \<and> computeStreak env_apia [str ''2011-12-30''] = None
   \<and> totalCompletions [str ''2011-12-30''] = 1"
proof -
  have "computeStreak env_apia [str ''2011-12-30''] = None"
    by (rule apia_never_returns) simp
  then show ?thesis by (simp add: apia_today apia_dateAdd totalCompletions_def)
qed


text \<open>
  C1. One hour east of UTC, at 11:00 UTC on 10 March 2024, with yesterday and the
  day before completed and today not: the walk of the specification counts 2,
  \<open>computeStreak\<close> returns 1. The cursor starts at 8 March, two days before today,
  and its next value is 6 March: \<open>dateAdd\<close> reads the date as a local midnight and
  writes the UTC day of the local midnight before, which is two days back.
\<close>

theorem streak_east_of_utc:
  "todayISO env_plus1 = str ''2024-03-10''
   \<and> dateAdd env_plus1 (str ''2024-03-10'') (- 1) = Inr (str ''2024-03-08'')
   \<and> computeStreak env_plus1 [str ''2024-03-09'', str ''2024-03-08''] = Some (Inr 1)
   \<and> spec_streak (udate (now env_plus1)) [str ''2024-03-09'', str ''2024-03-08''] = Some 2"
proof -
  have "udate (now env_plus1) = Civil 2024 3 10" by (simp add: env_plus1_def)
  then show ?thesis
    by (simp add: today_examples dateAdd_examples streak_east spec_two_days)
qed

end
